theory Spec2Isabelle
  imports Complex_Main
begin

section \<open>The non-autoregressive decoder of rl4co\<close>

text \<open>
  A shallow embedding of
  \<^verbatim>\<open>rl4co/models/zoo/common/nonautoregressive/decoder.py\<close>:
  the class \<^verbatim>\<open>EdgeHeatmapGenerator\<close> (an MLP over edge features whose scores are
  scattered into dense heat maps) and the class \<^verbatim>\<open>NonAutoregressiveDecoder\<close>
  (the decoding loop, \<^verbatim>\<open>_get_log_p\<close> and the memoised index helper).

  Tensors are nested lists. Tensor entries that the source computes with finite
  arithmetic only (edge scores, heat maps) are real numbers; the entries of
  \<^verbatim>\<open>log_p\<close>, where the source writes \<^verbatim>\<open>-torch.inf\<close>, range over the reals
  extended by the two infinities and NaN. The edge scores are computed in float32,
  every operation of the sigmoid and of its scaling rounded to the nearest float32,
  so that a sigmoid can be exactly 0 or 1; the arithmetic after that (the
  symmetrisation, the means, the log-softmax) is exact. Names of the source that
  start with an underscore lose it, since an Isabelle name cannot start with one.
\<close>

subsection \<open>Errors\<close>

datatype error =
    IndexError      \<comment> \<open>an index outside the dimension it addresses, or \<^verbatim>\<open>graphs[0]\<close> of no graph\<close>
  | ShapeError      \<comment> \<open>torch's RuntimeError for shapes that cannot be broadcast together\<close>
  | LookupFailure   \<comment> \<open>a registry that does not know the name\<close>

subsection \<open>The memoised index helper\<close>

text \<open>\<^verbatim>\<open>torch.arange(batch_size)\<close> for a size (a dimension of a tensor).\<close>

definition arange :: "nat \<Rightarrow> nat list" where
  "arange n = [0..<n]"

text \<open>
  Modelled from the spec: \<^verbatim>\<open>batchify\<close> of \<^verbatim>\<open>rl4co.utils.ops\<close> is imported by
  the decoder and is not among the sources. The spec says of the index helper that it
  "correctly maps each of \<^verbatim>\<open>num_starts\<close> parallel rollouts back to its source instance
  index (e.g. batch_size=2, num_starts=3 yields index sequence [0,0,0,1,1,1])": every
  entry is repeated \<^verbatim>\<open>num_starts\<close> times, the copies of one entry next to each other.
\<close>

definition batchify :: "'a list \<Rightarrow> int \<Rightarrow> 'a list" where
  "batchify x num_starts = concat (map (replicate (nat num_starts)) x)"

text \<open>The body of \<^verbatim>\<open>_multistart_batched_index\<close>, under its decorators.\<close>

definition multistart_batched_index_body :: "nat \<times> int \<Rightarrow> nat list" where
  "multistart_batched_index_body key =
     (case key of (batch_size, num_starts) \<Rightarrow>
        (let arr = arange batch_size in
         if num_starts \<le> 1 then arr else batchify arr num_starts))"

text \<open>
  \<^verbatim>\<open>functools.lru_cache(maxsize)\<close>: the cache is a list of (arguments, result)
  pairs, the most recently used first. A hit returns the stored result and moves
  its entry to the front; a miss runs the function, stores the result at the front
  and drops the least recently used entry once there are more than \<^verbatim>\<open>maxsize\<close>.
\<close>

type_synonym ('k, 'v) lru = "('k \<times> 'v) list"

definition lru_cache :: "nat \<Rightarrow> ('k \<Rightarrow> 'v) \<Rightarrow> ('k, 'v) lru \<Rightarrow> 'k \<Rightarrow> 'v \<times> ('k, 'v) lru" where
  "lru_cache maxsize f cache key =
     (case map_of cache key of
        Some v \<Rightarrow> (v, (key, v) # filter (\<lambda>e. fst e \<noteq> key) cache)
      | None \<Rightarrow> (let v = f key in (v, take maxsize ((key, v) # cache))))"

type_synonym index_cache = "(nat \<times> int, nat list) lru"

text \<open>\<^verbatim>\<open>@staticmethod @lru_cache(10) def _multistart_batched_index(batch_size, num_starts)\<close>\<close>

definition multistart_batched_index :: "index_cache \<Rightarrow> nat \<Rightarrow> int \<Rightarrow> nat list \<times> index_cache" where
  "multistart_batched_index cache batch_size num_starts =
     lru_cache 10 multistart_batched_index_body cache (batch_size, num_starts)"

text \<open>
  The caches that calls of the helper can build hold results of the helper's body
  only: \<open>cache_ok\<close> holds of the empty cache and every call keeps it.
\<close>

definition cache_ok :: "index_cache \<Rightarrow> bool" where
  "cache_ok cache = list_all (\<lambda>(k, v). v = multistart_batched_index_body k) cache"

text \<open>The cache after a sequence of calls, from the empty cache of a fresh process.\<close>

fun cache_after :: "(nat \<times> int) list \<Rightarrow> index_cache" where
  "cache_after [] = []"
| "cache_after (k # ks) = snd (multistart_batched_index (cache_after ks) (fst k) (snd k))"

subsection \<open>Graph batches\<close>

text \<open>
  One graph of a batch, as \<^verbatim>\<open>to_data_list()\<close> returns it: \<open>x_rows\<close> is
  \<^verbatim>\<open>x.shape[0]\<close>, the number of nodes; \<open>edge_index\<close> is the \<open>2 \<times> E\<close> tensor of
  node indices, column by column (\<^verbatim>\<open>edge_index[0][k]\<close>, \<^verbatim>\<open>edge_index[1][k]\<close>);
  \<open>edge_attr\<close> has one row of features per edge.
\<close>

record graph =
  x_rows :: nat
  edge_index :: "(int \<times> int) list"
  edge_attr :: "real list list"

type_synonym heatmaps = "real list list list"

subsection \<open>EdgeHeatmapGenerator\<close>

text \<open>
  The module's state: the hidden \<^verbatim>\<open>nn.Linear\<close> layers and the activation, each a
  function on the feature row of one edge, the output layer
  \<^verbatim>\<open>nn.Linear(embedding_dim, 1)\<close> with its single output feature, and the flag.
\<close>

record EdgeHeatmapGenerator =
  linears :: "(real list \<Rightarrow> real list) list"
  output_layer :: "real list \<Rightarrow> real"
  act :: "real list \<Rightarrow> real list"
  undirected_graph :: bool

text \<open>
  The edge scores are float32 numbers, torch's default dtype. A float32 operation
  returns the float32 nearest to the exact result, ties going to the even
  significand: \<open>exponent32\<close> is the binary exponent of a number (that of the
  subnormal numbers is \<open>-126\<close>), \<open>ulp32\<close> the distance between neighbouring
  float32 numbers there (24 bits of significand), and a result whose magnitude
  reaches \<open>(2 - 2\<^sup>-\<^sup>2\<^sup>4) * 2\<^sup>1\<^sup>2\<^sup>7\<close> overflows to infinity.
\<close>

definition exponent32 :: "real \<Rightarrow> int" where
  "exponent32 x = max \<lfloor>log 2 \<bar>x\<bar>\<rfloor> (- 126)"

definition ulp32 :: "real \<Rightarrow> real" where
  "ulp32 x = 2 powr of_int (exponent32 x - 23)"

definition round_half_even :: "real \<Rightarrow> int" where
  "round_half_even y =
     (let f = \<lfloor>y\<rfloor> in
      if y - of_int f < 1 / 2 then f
      else if 1 / 2 < y - of_int f then f + 1
      else if even f then f else f + 1)"

definition round_f32 :: "real \<Rightarrow> real" where
  "round_f32 x = (if x = 0 then 0 else of_int (round_half_even (x / ulp32 x)) * ulp32 x)"

definition overflows32 :: "real \<Rightarrow> bool" where
  "overflows32 x = ((2 - 2 powr (- 24)) * 2 powr 127 \<le> \<bar>x\<bar>)"

text \<open>
  \<^verbatim>\<open>torch.sigmoid\<close> on float32, computed as torch's kernel does,
  \<^verbatim>\<open>1 / (1 + exp(-x))\<close> with every operation rounded; the exponential is taken
  as correctly rounded. When \<^verbatim>\<open>exp(-x)\<close> overflows it is infinite, and so is the
  sum, and the quotient is 0.
\<close>

definition sigmoid :: "real \<Rightarrow> real" where
  "sigmoid x =
     (if overflows32 (exp (- x)) then 0
      else round_f32 (1 / round_f32 (1 + round_f32 (exp (- x)))))"

text \<open>
  Lines 58 to 61 of \<^verbatim>\<open>forward\<close> on the feature row of one edge: the loop over
  \<^verbatim>\<open>self.linears\<close>, then \<^verbatim>\<open>torch.sigmoid(self.output(edge_attr)) * 10\<close>, a row of
  one score.
\<close>

definition edge_score :: "EdgeHeatmapGenerator \<Rightarrow> real list \<Rightarrow> real list" where
  "edge_score self e =
     [round_f32
        (sigmoid (output_layer self (fold (\<lambda>layer a. act self (layer a)) (linears self) e)) * 10)]"

text \<open>The assignment to \<^verbatim>\<open>graph.edge_attr\<close>: the caller's batch after \<^verbatim>\<open>forward\<close>.\<close>

definition set_edge_attr :: "EdgeHeatmapGenerator \<Rightarrow> graph list \<Rightarrow> graph list" where
  "set_edge_attr self graphs =
     map (\<lambda>g. g\<lparr>edge_attr := map (edge_score self) (edge_attr g)\<rparr>) graphs"

text \<open>
  An index into a dimension of size \<open>n\<close>: torch counts a negative index from the
  end and raises outside \<open>[-n, n)\<close>.
\<close>

definition wrap_index :: "nat \<Rightarrow> int \<Rightarrow> error + nat" where
  "wrap_index n i =
     (if 0 \<le> i \<and> i < int n then Inr (nat i)
      else if - int n \<le> i \<and> i < 0 then Inr (nat (i + int n))
      else Inl IndexError)"

text \<open>The right-hand side of an indexed assignment, broadcast to the \<open>n\<close> indices.\<close>

definition broadcast_to :: "nat \<Rightarrow> 'a list \<Rightarrow> error + 'a list" where
  "broadcast_to n vals =
     (if length vals = n then Inr vals
      else if length vals = 1 then Inr (replicate n (hd vals))
      else Inl ShapeError)"

text \<open>
  \<^verbatim>\<open>m[rows, cols] = vals\<close> on an \<open>n \<times> n\<close> matrix, one write after the other, so
  that the last write to a position stays.
\<close>

fun index_put :: "nat \<Rightarrow> real list list \<Rightarrow> ((int \<times> int) \<times> real) list \<Rightarrow> error + real list list" where
  "index_put n m [] = Inr m"
| "index_put n m (((s, d), v) # rest) =
     (case wrap_index n s of
        Inl e \<Rightarrow> Inl e
      | Inr i \<Rightarrow>
          (case wrap_index n d of
             Inl e \<Rightarrow> Inl e
           | Inr j \<Rightarrow> index_put n (m[i := (m ! i)[j := v]]) rest))"

text \<open>
  Line 80 for one graph:
  \<^verbatim>\<open>heatmaps_logp[index, edge_index[0], edge_index[1]] = edge_attr.flatten()\<close>.
\<close>

definition assign_edges :: "nat \<Rightarrow> real list list \<Rightarrow> graph \<Rightarrow> error + real list list" where
  "assign_edges n m g =
     (case broadcast_to (length (edge_index g)) (concat (edge_attr g)) of
        Inl e \<Rightarrow> Inl e
      | Inr vals \<Rightarrow> index_put n m (zip (edge_index g) vals))"

text \<open>The loop \<^verbatim>\<open>for index, graph in enumerate(graphs)\<close>.\<close>

fun scatter_loop :: "nat \<Rightarrow> heatmaps \<Rightarrow> nat \<Rightarrow> graph list \<Rightarrow> error + heatmaps" where
  "scatter_loop n hm index [] = Inr hm"
| "scatter_loop n hm index (g # gs) =
     (case assign_edges n (hm ! index) g of
        Inl e \<Rightarrow> Inl e
      | Inr m \<Rightarrow> scatter_loop n (hm[index := m]) (Suc index) gs)"

definition zeros :: "nat \<Rightarrow> nat \<Rightarrow> nat \<Rightarrow> heatmaps" where
  "zeros a b c = replicate a (replicate b (replicate c 0))"

text \<open>\<^verbatim>\<open>t.transpose(1, 2)\<close> of a tensor with three dimensions.\<close>

definition transpose_1_2 :: "heatmaps \<Rightarrow> heatmaps" where
  "transpose_1_2 t =
     map (\<lambda>m. map (\<lambda>j. map (\<lambda>row. row ! j) m)
                [0..<(case m of [] \<Rightarrow> 0 | row # _ \<Rightarrow> length row)]) t"

definition tensor_add :: "heatmaps \<Rightarrow> heatmaps \<Rightarrow> heatmaps" where
  "tensor_add a b = map2 (map2 (map2 (+))) a b"

definition tensor_scale :: "heatmaps \<Rightarrow> real \<Rightarrow> heatmaps" where
  "tensor_scale a c = map (map (map (\<lambda>x. x * c))) a"

text \<open>
  \<^verbatim>\<open>_make_heatmaps\<close>. \<^verbatim>\<open>graphs[0]\<close> of an empty list raises; the number of nodes is
  that of the first graph.
\<close>

definition make_heatmaps :: "EdgeHeatmapGenerator \<Rightarrow> graph list \<Rightarrow> error + heatmaps" where
  "make_heatmaps self graphs =
     (case graphs of
        [] \<Rightarrow> Inl IndexError
      | g0 # _ \<Rightarrow>
          (let batch_size = length graphs;
               num_nodes = x_rows g0;
               heatmaps_logp = zeros batch_size num_nodes num_nodes
           in case scatter_loop num_nodes heatmaps_logp 0 graphs of
                Inl e \<Rightarrow> Inl e
              | Inr heatmaps_logp \<Rightarrow>
                  Inr (if undirected_graph self
                       then tensor_scale (tensor_add heatmaps_logp (transpose_1_2 heatmaps_logp)) 0.5
                       else heatmaps_logp)))"

text \<open>\<^verbatim>\<open>EdgeHeatmapGenerator.forward\<close>: the heat maps it returns.\<close>

definition forward :: "EdgeHeatmapGenerator \<Rightarrow> graph list \<Rightarrow> error + heatmaps" where
  "forward self graphs = make_heatmaps self (set_edge_attr self graphs)"

subsection \<open>Values of \<^verbatim>\<open>log_p\<close>\<close>

text \<open>
  The entries of \<^verbatim>\<open>log_p\<close>: a real number, one of the two infinities, or NaN,
  with the arithmetic of IEEE 754 on the special values (\<open>\<infinity> - \<infinity>\<close> is NaN, NaN
  propagates) and exact arithmetic on the numbers.
\<close>

datatype fval = Num real | PosInf | NegInf | NaN

fun fadd :: "fval \<Rightarrow> fval \<Rightarrow> fval" where
  "fadd NaN _ = NaN"
| "fadd _ NaN = NaN"
| "fadd (Num a) (Num b) = Num (a + b)"
| "fadd PosInf NegInf = NaN"
| "fadd NegInf PosInf = NaN"
| "fadd PosInf _ = PosInf"
| "fadd _ PosInf = PosInf"
| "fadd NegInf _ = NegInf"
| "fadd _ NegInf = NegInf"

fun fneg :: "fval \<Rightarrow> fval" where
  "fneg (Num a) = Num (- a)"
| "fneg PosInf = NegInf"
| "fneg NegInf = PosInf"
| "fneg NaN = NaN"

definition fsub :: "fval \<Rightarrow> fval \<Rightarrow> fval" where
  "fsub a b = fadd a (fneg b)"

fun fexp :: "fval \<Rightarrow> fval" where
  "fexp (Num a) = Num (exp a)"
| "fexp PosInf = PosInf"
| "fexp NegInf = Num 0"
| "fexp NaN = NaN"

fun flog :: "fval \<Rightarrow> fval" where
  "flog (Num a) = (if 0 < a then Num (ln a) else if a = 0 then NegInf else NaN)"
| "flog PosInf = PosInf"
| "flog NegInf = NaN"
| "flog NaN = NaN"

text \<open>The maximum of two values as \<^verbatim>\<open>torch.max\<close> takes it: NaN wins.\<close>

fun fmax :: "fval \<Rightarrow> fval \<Rightarrow> fval" where
  "fmax NaN _ = NaN"
| "fmax _ NaN = NaN"
| "fmax PosInf _ = PosInf"
| "fmax _ PosInf = PosInf"
| "fmax NegInf b = b"
| "fmax a NegInf = a"
| "fmax (Num a) (Num b) = Num (max a b)"

primrec fsum :: "fval list \<Rightarrow> fval" where
  "fsum [] = Num 0"
| "fsum (x # xs) = fadd x (fsum xs)"

text \<open>\<^verbatim>\<open>row.mean()\<close>: the mean of no element is NaN.\<close>

definition mean :: "real list \<Rightarrow> fval" where
  "mean row = (if row = [] then NaN else Num (sum_list row / real (length row)))"

text \<open>
  \<^verbatim>\<open>nn.functional.log_softmax(row, -1)\<close> on one row, as torch computes it: with
  \<open>m\<close> the maximum of the row, \<open>x - m - log (\<Sum> exp (x - m))\<close>.
\<close>

definition log_softmax :: "fval list \<Rightarrow> fval list" where
  "log_softmax row =
     (case row of
        [] \<Rightarrow> []
      | x # rest \<Rightarrow>
          (let m = fold fmax rest x;
               logsum = flog (fsum (map (\<lambda>y. fexp (fsub y m)) row))
           in map (\<lambda>y. fsub (fsub y m) logsum) row))"

subsection \<open>The rollout state\<close>

text \<open>
  The keys of the tensor dictionary that the decoder reads and writes; \<open>extra\<close>
  stands for all the other keys, which belong to the environment. The key
  \<^verbatim>\<open>"done"\<close> is the field \<open>td_done\<close>. \<^verbatim>\<open>"action"\<close> is absent before the first
  step and \<^verbatim>\<open>"reward"\<close> until \<^verbatim>\<open>forward\<close> sets it.
\<close>

record 'x td =
  td_done :: "bool list"
  action_mask :: "bool list list"
  action :: "int list option"
  reward :: "real list option"
  extra :: 'x

subsection \<open>\<^verbatim>\<open>NonAutoregressiveDecoder._get_log_p\<close>\<close>

text \<open>The first error of a list of results, or all the values.\<close>

fun sequence :: "(error + 'a) list \<Rightarrow> error + 'a list" where
  "sequence [] = Inr []"
| "sequence (Inl e # _) = Inl e"
| "sequence (Inr x # rs) = (case sequence rs of Inl e \<Rightarrow> Inl e | Inr xs \<Rightarrow> Inr (x # xs))"

text \<open>Two index tensors of one dimension, broadcast against each other.\<close>

definition broadcast_indices :: "'a list \<Rightarrow> 'b list \<Rightarrow> error + ('a \<times> 'b) list" where
  "broadcast_indices xs ys =
     (if length xs = length ys then Inr (zip xs ys)
      else if length xs = 1 then Inr (map (\<lambda>y. (hd xs, y)) ys)
      else if length ys = 1 then Inr (map (\<lambda>x. (x, hd ys)) xs)
      else Inl IndexError)"

text \<open>\<^verbatim>\<open>heatmaps_logp[_indexer, current_action, :]\<close>\<close>

definition index_rows :: "heatmaps \<Rightarrow> nat list \<Rightarrow> int list \<Rightarrow> error + fval list list" where
  "index_rows heatmaps_logp indexer current_action =
     (case broadcast_indices indexer current_action of
        Inl e \<Rightarrow> Inl e
      | Inr pairs \<Rightarrow>
          sequence (map (\<lambda>(b, a).
            if b < length heatmaps_logp
            then (case wrap_index (length (heatmaps_logp ! b)) a of
                    Inl e \<Rightarrow> Inl e
                  | Inr j \<Rightarrow> Inr (map Num (heatmaps_logp ! b ! j)))
            else Inl IndexError) pairs))"

text \<open>
  Lines 174 to 180: \<^verbatim>\<open>log_p\<close> before the mask is applied, and the cache of the
  index helper after the call.
\<close>

definition pre_mask_log_p ::
  "index_cache \<Rightarrow> 'x td \<Rightarrow> heatmaps \<Rightarrow> int \<Rightarrow> (error + fval list list) \<times> index_cache" where
  "pre_mask_log_p cache td heatmaps_logp num_starts =
     (case action td of
        None \<Rightarrow> (Inr (map (map mean) heatmaps_logp), cache)
      | Some current_action \<Rightarrow>
          (let batch_size = length heatmaps_logp;
               (indexer, cache') = multistart_batched_index cache batch_size num_starts
           in (index_rows heatmaps_logp indexer current_action, cache')))"

text \<open>
  Line 182, \<^verbatim>\<open>log_p[mask] = -torch.inf\<close>: a boolean mask must have the shape of the
  tensor it indexes.
\<close>

definition masked_fill :: "fval list list \<Rightarrow> bool list list \<Rightarrow> error + fval list list" where
  "masked_fill log_p msk =
     (if map length msk = map length log_p
      then Inr (map2 (map2 (\<lambda>x m. if m then NegInf else x)) log_p msk)
      else Inl IndexError)"

text \<open>
  Lines 172 to 182: the mask (\<open>msk\<close>, as \<open>mask\<close> is a constant of HOL) and
  \<^verbatim>\<open>log_p\<close> before it is normalised.
\<close>

definition masked_log_p ::
  "index_cache \<Rightarrow> 'x td \<Rightarrow> heatmaps \<Rightarrow> int \<Rightarrow>
   (error + fval list list \<times> bool list list) \<times> index_cache" where
  "masked_log_p cache td heatmaps_logp num_starts =
     (let msk = map (map Not) (action_mask td) in
      case pre_mask_log_p cache td heatmaps_logp num_starts of
        (Inl e, cache') \<Rightarrow> (Inl e, cache')
      | (Inr log_p, cache') \<Rightarrow>
          (case masked_fill log_p msk of
             Inl e \<Rightarrow> (Inl e, cache')
           | Inr log_p \<Rightarrow> (Inr (log_p, msk), cache')))"

text \<open>\<^verbatim>\<open>_get_log_p\<close>: line 183 normalises each row.\<close>

definition get_log_p ::
  "index_cache \<Rightarrow> 'x td \<Rightarrow> heatmaps \<Rightarrow> int \<Rightarrow>
   (error + fval list list \<times> bool list list) \<times> index_cache" where
  "get_log_p cache td heatmaps_logp num_starts =
     (case masked_log_p cache td heatmaps_logp num_starts of
        (Inl e, cache') \<Rightarrow> (Inl e, cache')
      | (Inr (log_p, msk), cache') \<Rightarrow> (Inr (map log_softmax log_p, msk), cache'))"

subsection \<open>The collaborators of the decoder\<close>

text \<open>
  An environment, as far as the decoder uses it: \<open>env_step\<close> is
  \<^verbatim>\<open>env.step(td)["next"]\<close> and \<open>get_reward\<close> is \<^verbatim>\<open>env.get_reward(td, actions)\<close>.
\<close>

record 'x RL4COEnvBase =
  name :: string
  env_step :: "'x td \<Rightarrow> 'x td"
  get_reward :: "'x td \<Rightarrow> int list list \<Rightarrow> real list"

text \<open>
  A decoding strategy: an object with a state of its own (\<open>state\<close>, the
  log-probabilities and actions it has recorded) and the three methods the decoder
  calls, each taking the state and returning the new one. \<open>strategy_step\<close> is the
  method \<^verbatim>\<open>step(log_p, mask, td)\<close>.
\<close>

record ('s, 'x) DecodingStrategy =
  state :: 's
  pre_decoder_hook :: "'s \<Rightarrow> 'x td \<Rightarrow> 'x RL4COEnvBase \<Rightarrow> 's \<times> 'x td \<times> 'x RL4COEnvBase \<times> int"
  strategy_step :: "'s \<Rightarrow> fval list list \<Rightarrow> bool list list \<Rightarrow> 'x td \<Rightarrow> 's \<times> 'x td"
  post_decoder_hook ::
    "'s \<Rightarrow> 'x td \<Rightarrow> 'x RL4COEnvBase \<Rightarrow>
     's \<times> fval list list \<times> int list list \<times> 'x td \<times> 'x RL4COEnvBase"

text \<open>
  The two registries that the module imports, \<^verbatim>\<open>get_env\<close> and
  \<^verbatim>\<open>get_decoding_strategy\<close>; \<open>'k\<close> is the type of the keyword arguments passed on
  to the strategy.
\<close>

record ('s, 'x, 'k) registries =
  get_env :: "string \<Rightarrow> error + 'x RL4COEnvBase"
  get_decoding_strategy :: "string \<Rightarrow> 'k \<Rightarrow> error + ('s, 'x) DecodingStrategy"

text \<open>The argument \<^verbatim>\<open>env\<close> of \<^verbatim>\<open>forward\<close>: \<^verbatim>\<open>None\<close>, a name or an environment.\<close>

datatype 'x env_arg = EnvNone | EnvName string | EnvObject "'x RL4COEnvBase"

subsection \<open>NonAutoregressiveDecoder\<close>

text \<open>
  The attributes of a decoder: \<open>env_name\<close> and \<open>heatmap_generator\<close> (the module
  it calls on the graph batch) are set by \<^verbatim>\<open>__init__\<close>; \<open>decode_strategy\<close> does not
  exist until \<^verbatim>\<open>forward\<close> assigns it.
\<close>

record ('s, 'x) NonAutoregressiveDecoder =
  env_name :: string
  heatmap_generator :: "graph list \<Rightarrow> error + heatmaps"
  decode_strategy :: "('s, 'x) DecodingStrategy option"

text \<open>
  \<^verbatim>\<open>__init__\<close>: \<open>env_name'\<close> is a name or an environment, whose name is then
  taken; \<open>heatmap_generator'\<close> is the module passed in, if any; \<open>built\<close> stands
  for the \<^verbatim>\<open>EdgeHeatmapGenerator(embedding_dim, num_layers, linear_bias)\<close> that is
  built otherwise, with the layers torch initialises and \<^verbatim>\<open>undirected_graph\<close> at its
  default \<^verbatim>\<open>True\<close>.
\<close>

definition init ::
  "string + 'x RL4COEnvBase \<Rightarrow> (graph list \<Rightarrow> error + heatmaps) option \<Rightarrow>
   EdgeHeatmapGenerator \<Rightarrow> ('s, 'x) NonAutoregressiveDecoder" where
  "init env_name' heatmap_generator' built =
     \<lparr>env_name = (case env_name' of Inl n \<Rightarrow> n | Inr env \<Rightarrow> name env),
      heatmap_generator =
        (case heatmap_generator' of
           None \<Rightarrow> forward (built\<lparr>undirected_graph := True\<rparr>)
         | Some given \<Rightarrow> given),
      decode_strategy = None\<rparr>"

text \<open>\<^verbatim>\<open>td["done"].all()\<close>\<close>

definition all_done :: "'x td \<Rightarrow> bool" where
  "all_done td = list_all (\<lambda>d. d) (td_done td)"

text \<open>
  Lines 157 to 161, the main decoding loop, on the cache of the index helper, the
  strategy object and the rollout state. A run that never leaves the loop has the
  value \<open>None\<close>; an exception of \<^verbatim>\<open>_get_log_p\<close> ends the loop with \<open>Inl\<close>.
\<close>

partial_function (option) decode_loop ::
  "heatmaps \<Rightarrow> int \<Rightarrow> 'x RL4COEnvBase \<Rightarrow>
   index_cache \<times> ('s, 'x) DecodingStrategy \<times> 'x td \<Rightarrow>
   (index_cache \<times> ('s, 'x) DecodingStrategy \<times> (error + 'x td)) option" where
  "decode_loop heatmaps_logp num_starts env st =
     (case st of (cache, strat, td) \<Rightarrow>
        if all_done td then Some (cache, strat, Inr td)
        else (case get_log_p cache td heatmaps_logp num_starts of
                (Inl e, cache') \<Rightarrow> Some (cache', strat, Inl e)
              | (Inr (log_p, msk), cache') \<Rightarrow>
                  (case strategy_step strat (state strat) log_p msk td of
                     (s', td') \<Rightarrow>
                       decode_loop heatmaps_logp num_starts env
                         (cache', strat\<lparr>state := s'\<rparr>, env_step env td'))))"

text \<open>Lines 144 to 146: the environment that \<^verbatim>\<open>forward\<close> works with.\<close>

definition resolve_env ::
  "('s, 'x, 'k) registries \<Rightarrow> ('s, 'x) NonAutoregressiveDecoder \<Rightarrow> 'x env_arg \<Rightarrow>
   error + 'x RL4COEnvBase" where
  "resolve_env imports self env =
     (case env of
        EnvNone \<Rightarrow> get_env imports (env_name self)
      | EnvName env_name' \<Rightarrow> get_env imports env_name'
      | EnvObject e \<Rightarrow> Inr e)"

text \<open>
  \<^verbatim>\<open>NonAutoregressiveDecoder.forward\<close>. The result is \<open>None\<close> when the loop does
  not end; otherwise it holds the decoder object and the cache as the call leaves
  them, and either the exception raised or the triple returned.
\<close>

definition decoder_forward ::
  "('s, 'x, 'k) registries \<Rightarrow> ('s, 'x) NonAutoregressiveDecoder \<Rightarrow> index_cache \<Rightarrow>
   'x td \<Rightarrow> graph list \<Rightarrow> 'x env_arg \<Rightarrow> string \<Rightarrow> bool \<Rightarrow> 'k \<Rightarrow>
   (('s, 'x) NonAutoregressiveDecoder \<times> index_cache \<times>
    (error + fval list list \<times> int list list \<times> 'x td)) option" where
  "decoder_forward imports self cache td graph env decode_type calc_reward strategy_kwargs =
     (case resolve_env imports self env of
        Inl e \<Rightarrow> Some (self, cache, Inl e)
      | Inr env \<Rightarrow>
     (case heatmap_generator self graph of
        Inl e \<Rightarrow> Some (self, cache, Inl e)
      | Inr heatmaps_logp \<Rightarrow>
     (case get_decoding_strategy imports decode_type strategy_kwargs of
        Inl e \<Rightarrow> Some (self, cache, Inl e)
      | Inr strat \<Rightarrow>
     (case pre_decoder_hook strat (state strat) td env of
        (s, td, env, num_starts) \<Rightarrow>
     (case decode_loop heatmaps_logp num_starts env (cache, strat\<lparr>state := s\<rparr>, td) of
        None \<Rightarrow> None
      | Some (cache', strat, Inl e) \<Rightarrow>
          Some (self\<lparr>decode_strategy := Some strat\<rparr>, cache', Inl e)
      | Some (cache', strat, Inr td) \<Rightarrow>
     (case post_decoder_hook strat (state strat) td env of
        (s, outputs, actions, td, env) \<Rightarrow>
          (let td = (if calc_reward then td\<lparr>reward := Some (get_reward env td actions)\<rparr>
                     else td)
           in Some (self\<lparr>decode_strategy := Some (strat\<lparr>state := s\<rparr>)\<rparr>, cache',
                    Inr (outputs, actions, td)))))))))"

subsection \<open>Vocabulary of the statements\<close>

text \<open>A tensor of shape \<open>[b, r, c]\<close>.\<close>

definition has_shape :: "nat \<Rightarrow> nat \<Rightarrow> nat \<Rightarrow> 'a list list list \<Rightarrow> bool" where
  "has_shape b r c t =
     (length t = b \<and> list_all (\<lambda>m. length m = r \<and> list_all (\<lambda>row. length row = c) m) t)"

text \<open>
  The values that an indexed assignment on an \<open>n \<times> n\<close> matrix writes to the
  position \<open>(u, v)\<close>, in the order of the writes.
\<close>

definition writes_to :: "nat \<Rightarrow> ((int \<times> int) \<times> real) list \<Rightarrow> nat \<Rightarrow> nat \<Rightarrow> real list" where
  "writes_to n ws u v =
     map snd (filter (\<lambda>w. wrap_index n (fst (fst w)) = Inr u \<and> wrap_index n (snd (fst w)) = Inr v) ws)"

text \<open>
  A graph on \<open>N\<close> nodes: one row of features per edge, every edge between two of
  the nodes \<open>0, ..., N - 1\<close>, and no edge from a node to itself.
\<close>

definition simple_graph :: "nat \<Rightarrow> graph \<Rightarrow> bool" where
  "simple_graph N g =
     (x_rows g = N \<and> length (edge_attr g) = length (edge_index g) \<and>
      list_all (\<lambda>e. 0 \<le> fst e \<and> fst e < int N \<and> 0 \<le> snd e \<and> snd e < int N \<and> fst e \<noteq> snd e)
        (edge_index g))"

text \<open>
  The two means of a heat map at instance \<open>i\<close> and node \<open>j\<close>: over the target nodes
  \<open>v\<close> of \<open>heatmap[i, j, v]\<close>, and, in the words of the spec's claim, "the mean over
  source nodes u of heatmap[i, u, j]".
\<close>

definition target_mean :: "heatmaps \<Rightarrow> nat \<Rightarrow> nat \<Rightarrow> real" where
  "target_mean hm i j = sum_list (hm ! i ! j) / real (length (hm ! i ! j))"

definition source_mean :: "heatmaps \<Rightarrow> nat \<Rightarrow> nat \<Rightarrow> real" where
  "source_mean hm i j = sum_list (map (\<lambda>row. row ! j) (hm ! i)) / real (length (hm ! i))"



subsection \<open>Examples\<close>

text \<open>
  A generator with one hidden layer and ReLU whose output layer ignores its input, so
  that every edge scores \<open>sigmoid 0 * 10 = 5\<close>, and a graph on three nodes with
  the edges \<open>0 \<rightarrow> 1\<close>, \<open>1 \<rightarrow> 2\<close> and \<open>2 \<rightarrow> 0\<close>.
\<close>

definition example_generator :: "bool \<Rightarrow> EdgeHeatmapGenerator" where
  "example_generator undirected =
     \<lparr>linears = [map (\<lambda>x. 2 * x + 1)], output_layer = (\<lambda>_. 0), act = map (max 0),
      undirected_graph = undirected\<rparr>"

text \<open>
  A generator without hidden layers whose output layer has zero weights and the
  bias \<open>z\<close>, for directed graphs: every edge has the logit \<open>z\<close>.
\<close>

definition constant_generator :: "real \<Rightarrow> EdgeHeatmapGenerator" where
  "constant_generator z =
     \<lparr>linears = [], output_layer = (\<lambda>_. z), act = (\<lambda>a. a), undirected_graph = False\<rparr>"

definition example_graph :: graph where
  "example_graph = \<lparr>x_rows = 3, edge_index = [(0, 1), (1, 2), (2, 0)], edge_attr = [[1], [2], [3]]\<rparr>"

definition example_graph2 :: graph where
  "example_graph2 = \<lparr>x_rows = 3, edge_index = [(0, 2)], edge_attr = [[4]]\<rparr>"

text \<open>
  A rollout state before the first step, for one instance with three nodes of which
  the second is infeasible.
\<close>

definition example_td :: "unit td" where
  "example_td =
     \<lparr>td_done = [False], action_mask = [[True, False, True]], action = None, reward = None,
      extra = ()\<rparr>"

text \<open>A later state of one instance: node 0 was chosen and nothing is feasible.\<close>

definition example_td_blocked :: "unit td" where
  "example_td_blocked =
     \<lparr>td_done = [False], action_mask = [[False, False, False]], action = Some [0],
      reward = None, extra = ()\<rparr>"

text \<open>
  An environment on three nodes that counts its steps in \<open>extra\<close>, forbids the
  nodes already chosen and is done after two actions; a strategy that chooses the
  first feasible node of every row and records its choices; the registries that
  know the two; and a decoder made from the environment, with the generator that
  \<^verbatim>\<open>__init__\<close> builds.
\<close>

definition example_env :: "nat RL4COEnvBase" where
  "example_env =
     \<lparr>name = ''toy'',
      env_step = (\<lambda>td. td
        \<lparr>td_done := map (\<lambda>_. 2 \<le> Suc (extra td)) (td_done td),
         action_mask := (case action td of
                           None \<Rightarrow> action_mask td
                         | Some acts \<Rightarrow> map2 (\<lambda>row a. row[nat a := False]) (action_mask td) acts),
         extra := Suc (extra td)\<rparr>),
      get_reward = (\<lambda>td actions. map (\<lambda>_. - 1) (td_done td))\<rparr>"

definition first_feasible :: "bool list \<Rightarrow> int" where
  "first_feasible row = int (length (takeWhile (\<lambda>m. m) row))"

definition example_strategy :: "(int list list, nat) DecodingStrategy" where
  "example_strategy =
     \<lparr>state = [],
      pre_decoder_hook = (\<lambda>s td env. (s, td, env, 1)),
      strategy_step = (\<lambda>s log_p msk td.
        (s @ [map first_feasible msk], td\<lparr>action := Some (map first_feasible msk)\<rparr>)),
      post_decoder_hook = (\<lambda>s td env. (s, [], s, td, env))\<rparr>"

definition example_registries :: "(int list list, nat, unit) registries" where
  "example_registries =
     \<lparr>get_env = (\<lambda>n. if n = ''toy'' then Inr example_env else Inl LookupFailure),
      get_decoding_strategy =
        (\<lambda>n kwargs. if n = ''first'' then Inr example_strategy else Inl LookupFailure)\<rparr>"

definition example_decoder :: "(int list list, nat) NonAutoregressiveDecoder" where
  "example_decoder = init (Inr example_env) None (example_generator False)"

definition example_start :: "nat td" where
  "example_start =
     \<lparr>td_done = [False], action_mask = [[True, True, True]], action = None, reward = None,
      extra = 0\<rparr>"

section \<open>Properties\<close>

subsection \<open>The index helper\<close>

lemma cache_ok_Nil: "cache_ok []"
  by (simp add: cache_ok_def)

lemma cache_ok_map_of:
  "cache_ok cache \<Longrightarrow> map_of cache k = Some v \<Longrightarrow> v = multistart_batched_index_body k"
  by (auto simp: cache_ok_def list_all_iff dest: map_of_SomeD)

lemma multistart_batched_index_value:
  "cache_ok cache \<Longrightarrow>
   fst (multistart_batched_index cache b ns) = multistart_batched_index_body (b, ns)"
  by (auto simp: multistart_batched_index_def lru_cache_def Let_def
      dest: cache_ok_map_of split: option.splits)

lemma multistart_batched_index_cache_ok:
  "cache_ok cache \<Longrightarrow> cache_ok (snd (multistart_batched_index cache b ns))"
  by (auto simp: multistart_batched_index_def lru_cache_def Let_def cache_ok_def list_all_iff
      dest: map_of_SomeD in_set_takeD split: option.splits)

lemma cache_after_ok: "cache_ok (cache_after ks)"
  by (induction ks) (simp_all add: cache_ok_Nil multistart_batched_index_cache_ok)

lemma batchify_length: "length (batchify xs n) = length xs * nat n"
  by (induction xs) (simp_all add: batchify_def)

lemma concat_replicate_nth:
  "0 < n \<Longrightarrow> k < length xs * n \<Longrightarrow> concat (map (replicate n) xs) ! k = xs ! (k div n)"
proof (induction xs arbitrary: k)
  case Nil
  then show ?case by simp
next
  case (Cons x xs)
  show ?case
  proof (cases "k < n")
    case True
    then show ?thesis by (simp add: nth_append)
  next
    case False
    then have kn: "n \<le> k" by simp
    with Cons.prems have "k - n < length xs * n" by simp
    with Cons.IH Cons.prems(1)
    have "concat (map (replicate n) xs) ! (k - n) = xs ! ((k - n) div n)" by blast
    moreover from kn Cons.prems(1) have "k div n = Suc ((k - n) div n)"
      by (simp add: le_div_geq)
    ultimately show ?thesis using False by (simp add: nth_append)
  qed
qed

text \<open>
  C10. Whatever the batch size, a \<^verbatim>\<open>num_starts\<close> of at most one (zero and the
  negative numbers too) makes \<^verbatim>\<open>_multistart_batched_index\<close> return the identity
  index sequence \<open>[0, 1, ..., batch_size - 1]\<close>: nothing is replicated. This holds
  at every cache that calls of the helper can have built.
\<close>

theorem multistart_batched_index_identity:
  "num_starts \<le> 1 \<Longrightarrow>
   fst (multistart_batched_index (cache_after calls) batch_size num_starts) = [0..<batch_size]"
  by (simp add: multistart_batched_index_value cache_after_ok
      multistart_batched_index_body_def arange_def)

theorem multistart_batched_index_identity_witness:
  "(-2::int) \<le> 1 \<and>
   fst (multistart_batched_index (cache_after [(3, 4), (3, -2)]) 3 (-2)) = [0, 1, 2]"
  using multistart_batched_index_identity [of "-2" "[(3, 4), (3, -2)]" 3]
  by (simp add: upt_conv_Cons)

subsection \<open>Rounding to float32\<close>

lemma round_half_even_of_int: "round_half_even (of_int k) = k"
  by (simp add: round_half_even_def)

lemma round_half_even_ge: "of_int k \<le> y \<Longrightarrow> k \<le> round_half_even y"
proof -
  assume "of_int k \<le> y"
  then have "k \<le> \<lfloor>y\<rfloor>" by (simp add: le_floor_iff)
  then show ?thesis by (auto simp: round_half_even_def Let_def)
qed

lemma round_half_even_le: "y \<le> of_int k \<Longrightarrow> round_half_even y \<le> k"
proof (cases "y = of_int k")
  case True
  then show ?thesis by (simp add: round_half_even_of_int)
next
  case False
  assume "y \<le> of_int k"
  with False have "y < of_int k" by simp
  then have "\<lfloor>y\<rfloor> < k" by (simp add: floor_less_iff)
  then show ?thesis by (auto simp: round_half_even_def Let_def)
qed

lemma round_half_even_tie:
  assumes "even k" and "0 \<le> t" and "t \<le> 1 / 2"
  shows "round_half_even (of_int k + t) = k"
proof -
  from assms have "\<lfloor>of_int k + t\<rfloor> = k" by (simp add: floor_eq_iff)
  with assms show ?thesis by (simp add: round_half_even_def Let_def)
qed

lemma exponent32_eq:
  assumes "2 powr of_int e \<le> x" and "x < 2 powr of_int (e + 1)" and "- 126 \<le> e"
  shows "exponent32 x = e"
proof -
  have "0 < (2::real) powr of_int e" by simp
  with assms(1) have pos: "0 < x" by linarith
  with assms have "\<lfloor>log 2 x\<rfloor> = e"
    by (simp add: floor_log_eq_powr_iff)
  with pos assms(3) show ?thesis by (simp add: exponent32_def)
qed

lemma exponent32_le:
  assumes "0 < x" and "x \<le> 2 powr of_int k" and "- 126 \<le> k"
  shows "exponent32 x \<le> k"
proof -
  from assms(1,2) have "log 2 x \<le> of_int k"
    by (simp add: log_le_iff)
  then have "\<lfloor>log 2 x\<rfloor> \<le> k" by (simp add: floor_le_iff)
  with assms show ?thesis by (simp add: exponent32_def)
qed

lemma exponent32_lower:
  assumes "2 powr of_int k \<le> x" and "- 126 \<le> k"
  shows "k \<le> exponent32 x \<and> 2 powr of_int (exponent32 x) \<le> x"
proof -
  have "0 < (2::real) powr of_int k" by simp
  with assms(1) have pos: "0 < x" by linarith
  from assms(1) pos have "of_int k \<le> log 2 x" by (simp add: le_log_iff)
  then have k: "k \<le> \<lfloor>log 2 x\<rfloor>" by (simp add: le_floor_iff)
  with assms(2) pos have e: "exponent32 x = \<lfloor>log 2 x\<rfloor>" by (simp add: exponent32_def)
  from pos have "2 powr of_int \<lfloor>log 2 x\<rfloor> \<le> x"
    using floor_log_eq_powr_iff [of x 2 "\<lfloor>log 2 x\<rfloor>"] by simp
  with k e show ?thesis by simp
qed


lemma pow2_of_nat: "0 \<le> n \<Longrightarrow> (2::real) powr of_int n = of_int (2 ^ nat n)"
  by (simp add: powr_real_of_int)

lemma pow2_add: "(2::real) powr of_int (a + b) = 2 powr of_int a * 2 powr of_int b"
  by (simp add: powr_add)

lemma round_f32_nonneg: "0 \<le> x \<Longrightarrow> 0 \<le> round_f32 x"
proof (cases "x = 0")
  case True
  then show ?thesis by (simp add: round_f32_def)
next
  case False
  assume "0 \<le> x"
  then have "of_int 0 \<le> x / ulp32 x" by (simp add: ulp32_def)
  then have "0 \<le> round_half_even (x / ulp32 x)" by (rule round_half_even_ge)
  with False show ?thesis by (simp add: round_f32_def ulp32_def)
qed

lemma round_f32_le_grid:
  assumes "0 < x" and "exponent32 x = e" and "x \<le> of_int m * 2 powr of_int (e - 23)"
  shows "round_f32 x \<le> of_int m * 2 powr of_int (e - 23)"
proof -
  have u: "ulp32 x = 2 powr of_int (e - 23)" "0 < ulp32 x"
    using assms(2) by (simp_all add: ulp32_def)
  with assms(3) have "x / ulp32 x \<le> of_int m" by (simp add: pos_divide_le_eq)
  then have "round_half_even (x / ulp32 x) \<le> m" by (rule round_half_even_le)
  then have "of_int (round_half_even (x / ulp32 x)) * ulp32 x \<le> of_int m * ulp32 x"
    using u(2) by (simp add: mult_right_mono)
  with assms(1) u(1) show ?thesis by (simp add: round_f32_def)
qed

lemma round_f32_ge_grid:
  assumes "0 < x" and "exponent32 x = e" and "of_int m * 2 powr of_int (e - 23) \<le> x"
  shows "of_int m * 2 powr of_int (e - 23) \<le> round_f32 x"
proof -
  have u: "ulp32 x = 2 powr of_int (e - 23)" "0 < ulp32 x"
    using assms(2) by (simp_all add: ulp32_def)
  with assms(3) have "of_int m \<le> x / ulp32 x" by (simp add: pos_le_divide_eq)
  then have "m \<le> round_half_even (x / ulp32 x)" by (rule round_half_even_ge)
  then have "of_int m * ulp32 x \<le> of_int (round_half_even (x / ulp32 x)) * ulp32 x"
    using u(2) by (simp add: mult_right_mono)
  with assms(1) u(1) show ?thesis by (simp add: round_f32_def)
qed

lemma round_f32_le_pow2:
  assumes "0 < x" and "x \<le> 2 powr of_int k" and "- 126 \<le> k"
  shows "round_f32 x \<le> 2 powr of_int k"
proof -
  define e where "e = exponent32 x"
  from exponent32_le [OF assms] have ek: "e \<le> k" by (simp add: e_def)
  then have "(2::real) powr of_int (k - e + 23) = of_int (2 ^ nat (k - e + 23))"
    by (intro pow2_of_nat) simp
  moreover have "(2::real) powr of_int k = 2 powr of_int (k - e + 23) * 2 powr of_int (e - 23)"
    using pow2_add [of "k - e + 23" "e - 23"] by simp
  ultimately have k: "(2::real) powr of_int k = of_int (2 ^ nat (k - e + 23)) * 2 powr of_int (e - 23)"
    by simp
  from round_f32_le_grid [OF assms(1), of e "2 ^ nat (k - e + 23)"] assms(2) k
  show ?thesis by (simp add: e_def)
qed

lemma round_f32_ge_pow2:
  assumes "2 powr of_int k \<le> x" and "- 126 \<le> k"
  shows "2 powr of_int k \<le> round_f32 x"
proof -
  define e where "e = exponent32 x"
  have "0 < (2::real) powr of_int k" by simp
  with assms(1) have pos: "0 < x" by linarith
  from exponent32_lower [OF assms] have ke: "k \<le> e" and ex: "2 powr of_int e \<le> x"
    by (simp_all add: e_def)
  have "(2::real) powr of_int e = 2 powr of_int 23 * 2 powr of_int (e - 23)"
    using pow2_add [of 23 "e - 23"] by simp
  also have "(2::real) powr of_int 23 = of_int (2 ^ nat 23)"
    by (intro pow2_of_nat) simp
  finally have e: "(2::real) powr of_int e = of_int (2 ^ nat 23) * 2 powr of_int (e - 23)" .
  from round_f32_ge_grid [OF pos, of e "2 ^ nat 23"] ex e
  have "2 powr of_int e \<le> round_f32 x" by (simp add: e_def)
  moreover from ke have "(2::real) powr of_int k \<le> 2 powr of_int e" by simp
  ultimately show ?thesis by linarith
qed

lemma round_f32_exact:
  assumes "2 powr of_int e \<le> x" and "x < 2 powr of_int (e + 1)" and "- 126 \<le> e"
    and "x = of_int m * 2 powr of_int (e - 23)"
  shows "round_f32 x = x"
proof -
  have "0 < (2::real) powr of_int e" by simp
  with assms(1) have pos: "0 < x" by linarith
  from exponent32_eq [OF assms(1,2,3)] have e: "exponent32 x = e" .
  from round_f32_le_grid [OF pos e, of m] round_f32_ge_grid [OF pos e, of m] assms(4)
  show ?thesis by simp
qed


lemma round_f32_1: "round_f32 1 = 1"
  by (rule round_f32_exact [of 0 _ "2 ^ 23"]) (simp_all add: powr_real_of_int powr_minus)

lemma round_f32_2: "round_f32 2 = 2"
  by (rule round_f32_exact [of 1 _ "2 ^ 23"]) (simp_all add: powr_real_of_int powr_minus)

lemma round_f32_half: "round_f32 (1 / 2) = 1 / 2"
  by (rule round_f32_exact [of "- 1" _ "2 ^ 23"]) (simp_all add: powr_real_of_int powr_minus)

lemma round_f32_5: "round_f32 5 = 5"
  by (rule round_f32_exact [of 2 _ "5 * 2 ^ 21"]) (simp_all add: powr_real_of_int powr_minus)

lemma round_f32_10: "round_f32 10 = 10"
  by (rule round_f32_exact [of 3 _ "5 * 2 ^ 21"]) (simp_all add: powr_real_of_int powr_minus)

lemma round_f32_0: "round_f32 0 = 0"
  by (simp add: round_f32_def)

lemma round_f32_le_10:
  assumes "0 \<le> x" and "x \<le> 10"
  shows "round_f32 x \<le> 10"
proof -
  consider "x = 0" | "0 < x" "x \<le> 8" | "8 < x"
    using assms(1) by fastforce
  then show ?thesis
  proof cases
    case 1
    then show ?thesis by (simp add: round_f32_0)
  next
    case 2
    from round_f32_le_pow2 [OF 2(1), of 3] 2(2) show ?thesis
      by (simp add: powr_real_of_int powr_minus)
  next
    case 3
    with assms(2) have "exponent32 x = 3"
      by (intro exponent32_eq) (simp_all add: powr_real_of_int powr_minus)
    from round_f32_le_grid [OF _ this, of "5 * 2 ^ 21"] 3 assms(2)
    show ?thesis by (simp add: powr_real_of_int powr_minus)
  qed
qed

lemma overflow_threshold:
  "(1 :: real) < (2 - 2 powr (- 24)) * 2 powr 127"
  "(2 - 2 powr (- 24)) * 2 powr 127 \<le> (2 :: real) ^ 128"
  by (simp_all add: powr_minus)

lemma not_overflows32: "0 \<le> x \<Longrightarrow> x \<le> 1 \<Longrightarrow> \<not> overflows32 x"
  unfolding overflows32_def using overflow_threshold(1) by linarith

lemma overflows32_big: "2 ^ 128 \<le> x \<Longrightarrow> overflows32 x"
  unfolding overflows32_def using overflow_threshold(2) by linarith

lemma power_fraction_bounds:
  "(2 :: real) ^ 24 \<le> (41 / 32) ^ 68" "(2 :: real) ^ 128 \<le> (5 / 2) ^ 104"
proof -
  have "(2 :: nat) ^ 24 * 32 ^ 68 \<le> 41 ^ 68" by simp
  then have "real ((2 :: nat) ^ 24 * 32 ^ 68) \<le> real ((41 :: nat) ^ 68)"
    by (rule iffD2 [OF of_nat_le_iff])
  then have "(2 :: real) ^ 24 * 32 ^ 68 \<le> 41 ^ 68" by simp
  then show "(2 :: real) ^ 24 \<le> (41 / 32) ^ 68"
    by (simp add: power_divide pos_le_divide_eq)
  have "(2 :: nat) ^ 128 * 2 ^ 104 \<le> 5 ^ 104" by simp
  then have "real ((2 :: nat) ^ 128 * 2 ^ 104) \<le> real ((5 :: nat) ^ 104)"
    by (rule iffD2 [OF of_nat_le_iff])
  then have "(2 :: real) ^ 128 * 2 ^ 104 \<le> 5 ^ 104" by simp
  then show "(2 :: real) ^ 128 \<le> (5 / 2) ^ 104"
    by (simp add: power_divide pos_le_divide_eq)
qed

lemma sigmoid_range: "0 \<le> sigmoid x \<and> sigmoid x \<le> 1"
proof (cases "overflows32 (exp (- x))")
  case True
  then show ?thesis by (simp add: sigmoid_def)
next
  case False
  define d where "d = round_f32 (1 + round_f32 (exp (- x)))"
  have "0 \<le> round_f32 (exp (- x))" by (rule round_f32_nonneg) simp
  then have "2 powr of_int 0 \<le> 1 + round_f32 (exp (- x))" by simp
  from round_f32_ge_pow2 [OF this] have d: "1 \<le> d" by (simp add: d_def)
  then have q: "0 < 1 / d" "1 / d \<le> 2 powr of_int 0" by simp_all
  from round_f32_le_pow2 [OF q] have "round_f32 (1 / d) \<le> 1" by simp
  moreover from q(1) have "0 \<le> round_f32 (1 / d)" by (intro round_f32_nonneg) simp
  ultimately show ?thesis using False by (simp add: sigmoid_def d_def)
qed

lemma sigmoid_0: "sigmoid 0 = 1 / 2"
proof -
  have "\<not> overflows32 1" by (rule not_overflows32) simp_all
  then show ?thesis
    by (simp add: sigmoid_def round_f32_1 round_f32_2 round_f32_half)
qed

lemma round_f32_one_plus:
  assumes "0 \<le> t" and "t \<le> 2 powr of_int (- 24)"
  shows "round_f32 (1 + t) = 1"
proof -
  from assms have t: "t \<le> 1 / 2 ^ 24" by (simp add: powr_real_of_int powr_minus)
  with assms(1) have e: "exponent32 (1 + t) = 0"
    by (intro exponent32_eq) (simp_all add: powr_real_of_int powr_minus)
  then have u: "ulp32 (1 + t) = 1 / 2 ^ 23" by (simp add: ulp32_def powr_real_of_int powr_minus)
  have "(1 + t) / ulp32 (1 + t) = of_int (2 ^ 23) + t * 2 ^ 23"
    by (simp add: u algebra_simps)
  moreover have "0 \<le> t * 2 ^ 23" "t * 2 ^ 23 \<le> 1 / 2"
    using assms(1) t by simp_all
  ultimately have "round_half_even ((1 + t) / ulp32 (1 + t)) = 2 ^ 23"
    using round_half_even_tie [of "2 ^ 23" "t * 2 ^ 23"] by simp
  with assms(1) u show ?thesis by (simp add: round_f32_def)
qed

lemma exp_17_lower: "2 ^ 24 \<le> exp (17 :: real)"
proof -
  have "(41 / 32 :: real) \<le> exp (1 / 4)"
    using exp_lower_Taylor_quadratic [of "1 / 4 :: real"] by (simp add: power2_eq_square)
  then have "(41 / 32 :: real) ^ 68 \<le> exp (1 / 4) ^ 68"
    by (intro power_mono) simp_all
  also have "exp (1 / 4 :: real) ^ 68 = exp 17"
    using exp_of_nat_mult [of 68 "1 / 4 :: real"] by simp
  finally have "(41 / 32 :: real) ^ 68 \<le> exp 17" .
  with power_fraction_bounds(1) show ?thesis by linarith
qed

lemma sigmoid_17: "sigmoid 17 = 1"
proof -
  have small: "exp (- 17 :: real) \<le> 2 powr of_int (- 24)"
  proof -
    have "exp (- 17 :: real) = 1 / exp 17" by (simp add: exp_minus inverse_eq_divide)
    also have "\<dots> \<le> 1 / 2 ^ 24"
      using exp_17_lower by (intro divide_left_mono) simp_all
    finally show ?thesis by (simp add: powr_real_of_int powr_minus)
  qed
  have no: "\<not> overflows32 (exp (- 17))" by (rule not_overflows32) simp_all
  have "round_f32 (exp (- 17)) \<le> 2 powr of_int (- 24)"
    by (rule round_f32_le_pow2 [OF _ small]) simp_all
  moreover have "0 \<le> round_f32 (exp (- 17))" by (rule round_f32_nonneg) simp
  ultimately have "round_f32 (1 + round_f32 (exp (- 17))) = 1"
    by (intro round_f32_one_plus)
  with no show ?thesis by (simp add: sigmoid_def round_f32_1)
qed

lemma exp_104_lower: "2 ^ 128 \<le> exp (104 :: real)"
proof -
  have "(5 / 2 :: real) \<le> exp 1"
    using exp_lower_Taylor_quadratic [of "1 :: real"] by simp
  then have "(5 / 2 :: real) ^ 104 \<le> exp 1 ^ 104"
    by (intro power_mono) simp_all
  also have "exp (1 :: real) ^ 104 = exp 104"
    using exp_of_nat_mult [of 104 "1 :: real"] by simp
  finally have "(5 / 2 :: real) ^ 104 \<le> exp 104" .
  with power_fraction_bounds(2) show ?thesis by linarith
qed

lemma sigmoid_minus_104: "sigmoid (- 104) = 0"
proof -
  from exp_104_lower have "overflows32 (exp (104 :: real))"
    by (rule overflows32_big)
  then show ?thesis by (simp add: sigmoid_def)
qed

subsection \<open>Scattering edge scores\<close>

lemma wrap_index_less: "wrap_index n i = Inr k \<Longrightarrow> k < n"
  by (auto simp: wrap_index_def split: if_splits)

lemma index_put_lengths:
  "index_put n m ws = Inr m' \<Longrightarrow> map length m' = map length m"
proof (induction ws arbitrary: m)
  case Nil
  then show ?case by simp
next
  case (Cons w ws)
  obtain s d v where w: "w = ((s, d), v)" by (cases w) auto
  from Cons.prems w obtain i j where
    "index_put n (m[i := (m ! i)[j := v]]) ws = Inr m'"
    by (auto split: sum.splits)
  from Cons.IH [OF this] show ?case
    by (simp add: map_update) (metis list_update_id map_update)
qed

lemma index_put_nth:
  "index_put n m ws = Inr m' \<Longrightarrow> u < length m \<Longrightarrow> v < length (m ! u) \<Longrightarrow>
   m' ! u ! v = (if writes_to n ws u v = [] then m ! u ! v else last (writes_to n ws u v))"
proof (induction ws arbitrary: m)
  case Nil
  then show ?case by (simp add: writes_to_def)
next
  case (Cons w ws)
  obtain s d x where w: "w = ((s, d), x)" by (cases w) auto
  from Cons.prems(1) w obtain i j where
    i: "wrap_index n s = Inr i" and j: "wrap_index n d = Inr j" and
    rest: "index_put n (m[i := (m ! i)[j := x]]) ws = Inr m'"
    by (auto split: sum.splits)
  let ?m1 = "m[i := (m ! i)[j := x]]"
  have m1: "?m1 ! u ! v = (if i = u \<and> j = v then x else m ! u ! v)"
    using Cons.prems(2,3) by (cases "i = u") simp_all
  have len: "u < length ?m1" "v < length (?m1 ! u)"
    using Cons.prems(2,3) by (cases "i = u"; simp)+
  have ws: "writes_to n (w # ws) u v = (if i = u \<and> j = v then [x] else []) @ writes_to n ws u v"
    using i j w by (auto simp: writes_to_def)
  from Cons.IH [OF rest len] m1 ws show ?case by auto
qed

lemma scatter_loop_nth:
  "scatter_loop n hm k gs = Inr hm' \<Longrightarrow> k + length gs \<le> length hm \<Longrightarrow>
   length hm' = length hm \<and>
   (\<forall>i < length hm.
      if k \<le> i \<and> i < k + length gs
      then assign_edges n (hm ! i) (gs ! (i - k)) = Inr (hm' ! i)
      else hm' ! i = hm ! i)"
proof (induction gs arbitrary: hm k)
  case Nil
  then show ?case by auto
next
  case (Cons g gs)
  from Cons.prems(1) obtain m where
    m: "assign_edges n (hm ! k) g = Inr m" and
    rest: "scatter_loop n (hm[k := m]) (Suc k) gs = Inr hm'"
    by (auto split: sum.splits)
  from Cons.prems(2) have "Suc k + length gs \<le> length (hm[k := m])" by simp
  from Cons.IH [OF rest this] have
    len: "length hm' = length hm" and
    ih: "\<And>i. i < length hm \<Longrightarrow>
      (if Suc k \<le> i \<and> i < Suc k + length gs
       then assign_edges n (hm[k := m] ! i) (gs ! (i - Suc k)) = Inr (hm' ! i)
       else hm' ! i = hm[k := m] ! i)"
    by auto
  show ?case
  proof (intro conjI allI impI)
    show "length hm' = length hm" by (rule len)
  next
    fix i assume i: "i < length hm"
    show "if k \<le> i \<and> i < k + length (g # gs)
          then assign_edges n (hm ! i) ((g # gs) ! (i - k)) = Inr (hm' ! i)
          else hm' ! i = hm ! i"
    proof (cases "i = k")
      case True
      with ih [OF i] i m show ?thesis by simp
    next
      case False
      with ih [OF i] i show ?thesis
        by (auto simp: nth_Cons' split: if_splits)
    qed
  qed
qed


lemma edge_score_bounds: "y \<in> set (edge_score self e) \<Longrightarrow> 0 \<le> y \<and> y \<le> 10"
proof -
  assume "y \<in> set (edge_score self e)"
  then obtain z where y: "y = round_f32 (sigmoid z * 10)" by (auto simp: edge_score_def)
  from sigmoid_range [of z] have "0 \<le> sigmoid z * 10" "sigmoid z * 10 \<le> 10" by simp_all
  with y show ?thesis by (simp add: round_f32_nonneg round_f32_le_10)
qed

lemma set_edge_attr_nth:
  "i < length graphs \<Longrightarrow>
   x_rows (set_edge_attr self graphs ! i) = x_rows (graphs ! i) \<and>
   edge_index (set_edge_attr self graphs ! i) = edge_index (graphs ! i) \<and>
   edge_attr (set_edge_attr self graphs ! i) = map (edge_score self) (edge_attr (graphs ! i))"
  by (simp add: set_edge_attr_def)

lemma concat_scores_bounds:
  "y \<in> set (concat (map (edge_score self) rows)) \<Longrightarrow> 0 \<le> y \<and> y \<le> 10"
  using edge_score_bounds by auto

lemma concat_scores_length: "length (concat (map (edge_score self) rows)) = length rows"
  by (induction rows) (simp_all add: edge_score_def)

lemma broadcast_to_facts:
  "broadcast_to n vals = Inr ws \<Longrightarrow> length ws = n \<and> set ws \<subseteq> set vals"
  by (cases vals) (auto simp: broadcast_to_def split: if_splits)

lemma writes_to_subset: "length vals = length es \<Longrightarrow> set (writes_to n (zip es vals) u v) \<subseteq> set vals"
  by (auto simp: writes_to_def dest: set_zip_rightD)

lemma writes_to_nonempty:
  "length vals = length es \<Longrightarrow> (s, d) \<in> set es \<Longrightarrow> wrap_index n s = Inr u \<Longrightarrow>
   wrap_index n d = Inr v \<Longrightarrow> writes_to n (zip es vals) u v \<noteq> []"
proof -
  assume len: "length vals = length es" and e: "(s, d) \<in> set es"
    and u: "wrap_index n s = Inr u" and v: "wrap_index n d = Inr v"
  from e obtain k where k: "k < length es" "es ! k = (s, d)" by (auto simp: in_set_conv_nth)
  with len have "((s, d), vals ! k) \<in> set (zip es vals)"
    unfolding set_zip by (intro CollectI exI [of _ k]) simp
  with u v show ?thesis
    by (auto simp: writes_to_def filter_empty_conv intro!: bexI [of _ "((s, d), vals ! k)"])
qed

lemma writes_to_empty:
  "\<forall>e \<in> set es. \<not> (wrap_index n (fst e) = Inr u \<and> wrap_index n (snd e) = Inr v) \<Longrightarrow>
   writes_to n (zip es vals) u v = []"
  by (fastforce simp: writes_to_def filter_empty_conv dest: set_zip_leftD)

subsection \<open>The heat maps before and after symmetrisation\<close>

lemma has_shape_iff:
  "has_shape b r c t \<longleftrightarrow>
   length t = b \<and> (\<forall>i<b. length (t ! i) = r \<and> (\<forall>u<r. length (t ! i ! u) = c))"
  by (auto simp: has_shape_def list_all_length)

lemma assign_edges_shape:
  assumes "assign_edges n (replicate n (replicate n 0)) g = Inr m"
  shows "length m = n" and "u < n \<Longrightarrow> length (m ! u) = n"
proof -
  from assms obtain vals where
    "index_put n (replicate n (replicate n 0)) (zip (edge_index g) vals) = Inr m"
    by (auto simp: assign_edges_def split: sum.splits)
  from index_put_lengths [OF this] have eq: "map length m = replicate n n" by simp
  then show "length m = n" by (metis length_map length_replicate)
  with eq show "u < n \<Longrightarrow> length (m ! u) = n"
    by (metis nth_map nth_replicate)
qed

lemma assign_edges_entry:
  assumes "assign_edges n (replicate n (replicate n 0)) g = Inr m" "u < n" "v < n"
  shows "\<exists>vals. broadcast_to (length (edge_index g)) (concat (edge_attr g)) = Inr vals \<and>
           m ! u ! v = (if writes_to n (zip (edge_index g) vals) u v = [] then 0
                        else last (writes_to n (zip (edge_index g) vals) u v))"
proof -
  from assms(1) obtain vals where
    b: "broadcast_to (length (edge_index g)) (concat (edge_attr g)) = Inr vals" and
    p: "index_put n (replicate n (replicate n 0)) (zip (edge_index g) vals) = Inr m"
    by (auto simp: assign_edges_def split: sum.splits)
  from index_put_nth [OF p, of u v] assms(2,3) b show ?thesis by simp
qed

lemma scatter_zeros:
  assumes "scatter_loop n (zeros (length gs) n n) 0 gs = Inr hm"
  shows "length hm = length gs"
    and "i < length gs \<Longrightarrow> assign_edges n (replicate n (replicate n 0)) (gs ! i) = Inr (hm ! i)"
proof -
  have len: "0 + length gs \<le> length (zeros (length gs) n n)" by (simp add: zeros_def)
  from scatter_loop_nth [OF assms len] show "length hm = length gs" by (simp add: zeros_def)
  from scatter_loop_nth [OF assms len]
  show "i < length gs \<Longrightarrow> assign_edges n (replicate n (replicate n 0)) (gs ! i) = Inr (hm ! i)"
    by (auto simp: zeros_def)
qed

lemma scatter_zeros_shape:
  assumes "scatter_loop n (zeros (length gs) n n) 0 gs = Inr hm"
  shows "has_shape (length gs) n n hm"
proof -
  have "length (hm ! i) = n \<and> (\<forall>u<n. length (hm ! i ! u) = n)" if "i < length gs" for i
    using assign_edges_shape [OF scatter_zeros(2) [OF assms that]] by blast
  with scatter_zeros(1) [OF assms] show ?thesis by (simp add: has_shape_iff)
qed

lemma transpose_1_2_nth:
  assumes "has_shape b n n t" "i < b" "u < n" "v < n"
  shows "transpose_1_2 t ! i ! u ! v = t ! i ! v ! u"
proof -
  from assms have len: "length t = b" "length (t ! i) = n" "length (t ! i ! 0) = n"
    by (auto simp: has_shape_iff)
  with assms(3) have "(case t ! i of [] \<Rightarrow> 0 | row # _ \<Rightarrow> length row) = n"
    by (cases "t ! i") auto
  with len assms show ?thesis by (simp add: transpose_1_2_def)
qed

lemma transpose_1_2_shape:
  assumes "has_shape b n n t"
  shows "has_shape b n n (transpose_1_2 t)"
proof -
  have "(case t ! i of [] \<Rightarrow> 0 | row # _ \<Rightarrow> length row) = n" if "i < b" for i
  proof (cases "t ! i")
    case Nil
    with assms that show ?thesis by (auto simp: has_shape_iff)
  next
    case (Cons row rows)
    with assms that have n: "0 < n" "length (t ! i) = n"
      by (auto simp: has_shape_iff)
    with assms that have "length (t ! i ! 0) = n"
      by (simp add: has_shape_iff)
    with Cons show ?thesis by simp
  qed
  with assms show ?thesis by (auto simp: has_shape_iff transpose_1_2_def)
qed

lemma symmetrise_nth:
  assumes "has_shape b n n t" "i < b" "u < n" "v < n"
  shows "tensor_scale (tensor_add t (transpose_1_2 t)) c ! i ! u ! v
         = (t ! i ! u ! v + t ! i ! v ! u) * c"
  using assms transpose_1_2_shape [OF assms(1)] transpose_1_2_nth [OF assms]
  by (simp add: has_shape_iff tensor_scale_def tensor_add_def)

lemma symmetrise_shape:
  assumes "has_shape b n n t"
  shows "has_shape b n n (tensor_scale (tensor_add t (transpose_1_2 t)) c)"
  using assms transpose_1_2_shape [OF assms(1)]
  by (simp add: has_shape_iff tensor_scale_def tensor_add_def)

lemma set_edge_attr_length: "length (set_edge_attr self graphs) = length graphs"
  by (simp add: set_edge_attr_def)

lemma forward_cases:
  assumes "forward self graphs = Inr M"
  obtains hm where "graphs \<noteq> []"
    and "scatter_loop (x_rows (hd graphs)) (zeros (length graphs) (x_rows (hd graphs)) (x_rows (hd graphs))) 0
           (set_edge_attr self graphs) = Inr hm"
    and "M = (if undirected_graph self
              then tensor_scale (tensor_add hm (transpose_1_2 hm)) 0.5 else hm)"
proof (cases graphs)
  case Nil
  with assms show ?thesis by (simp add: forward_def make_heatmaps_def set_edge_attr_def)
next
  case (Cons g gs)
  then have "set_edge_attr self graphs
      = g\<lparr>edge_attr := map (edge_score self) (edge_attr g)\<rparr> # set_edge_attr self gs"
    by (simp add: set_edge_attr_def)
  with assms Cons that show ?thesis
    by (auto simp: forward_def make_heatmaps_def Let_def set_edge_attr_length split: sum.splits)
qed

lemma forward_shape:
  assumes "forward self graphs = Inr M"
  shows "has_shape (length graphs) (x_rows (hd graphs)) (x_rows (hd graphs)) M"
proof -
  from assms obtain hm where
    sc: "scatter_loop (x_rows (hd graphs)) (zeros (length graphs) (x_rows (hd graphs)) (x_rows (hd graphs))) 0
           (set_edge_attr self graphs) = Inr hm"
    and M: "M = (if undirected_graph self
              then tensor_scale (tensor_add hm (transpose_1_2 hm)) 0.5 else hm)"
    by (rule forward_cases)
  from scatter_zeros_shape [of _ "set_edge_attr self graphs"] sc
  have "has_shape (length graphs) (x_rows (hd graphs)) (x_rows (hd graphs)) hm"
    by (simp add: set_edge_attr_length)
  with M symmetrise_shape show ?thesis by auto
qed

text \<open>
  C1. With \<^verbatim>\<open>undirected_graph\<close> set, the heat maps that
  \<^verbatim>\<open>EdgeHeatmapGenerator.forward\<close> returns are symmetric in their last two
  dimensions: \<open>M[i, u, v] = M[i, v, u]\<close> for every instance \<open>i\<close> and every pair
  of nodes \<open>u\<close>, \<open>v\<close>. The proof uses of the addition in \<open>(M + M\<^sup>T) * 0.5\<close> only
  that it commutes.
\<close>

theorem heatmap_symmetric:
  assumes "undirected_graph self" and "forward self graphs = Inr M"
    and "i < length M" and "u < length (M ! i)" and "v < length (M ! i)"
  shows "M ! i ! u ! v = M ! i ! v ! u"
proof -
  let ?n = "x_rows (hd graphs)"
  from assms(2) obtain hm where
    sc: "scatter_loop ?n (zeros (length graphs) ?n ?n) 0 (set_edge_attr self graphs) = Inr hm"
    and M: "M = (if undirected_graph self
              then tensor_scale (tensor_add hm (transpose_1_2 hm)) 0.5 else hm)"
    by (rule forward_cases)
  from scatter_zeros_shape [of _ "set_edge_attr self graphs"] sc
  have hm: "has_shape (length graphs) ?n ?n hm"
    by (simp add: set_edge_attr_length)
  from forward_shape [OF assms(2)] assms(3,4,5)
  have i: "i < length graphs" and u: "u < ?n" and v: "v < ?n"
    by (auto simp: has_shape_iff)
  from M assms(1) have "M = tensor_scale (tensor_add hm (transpose_1_2 hm)) 0.5" by simp
  with symmetrise_nth [OF hm i u v] symmetrise_nth [OF hm i v u]
  show ?thesis by (simp add: add.commute)
qed

lemma example_forward_undirected:
  "forward (example_generator True) [example_graph]
   = Inr [[[0, 5/2, 5/2], [5/2, 0, 5/2], [5/2, 5/2, 0]]]"
  by (simp add: forward_def make_heatmaps_def set_edge_attr_def example_generator_def
      example_graph_def edge_score_def sigmoid_0 round_f32_5 zeros_def assign_edges_def broadcast_to_def
      wrap_index_def transpose_1_2_def tensor_add_def tensor_scale_def numeral_3_eq_3 upt_conv_Cons)

lemma example_forward_directed:
  "forward (example_generator False) [example_graph]
   = Inr [[[0, 5, 0], [0, 0, 5], [5, 0, 0]]]"
  by (simp add: forward_def make_heatmaps_def set_edge_attr_def example_generator_def
      example_graph_def edge_score_def sigmoid_0 round_f32_5 zeros_def assign_edges_def broadcast_to_def
      wrap_index_def numeral_3_eq_3)

theorem heatmap_symmetric_witness:
  "undirected_graph (example_generator True) \<and>
   forward (example_generator True) [example_graph]
     = Inr [[[0, 5/2, 5/2], [5/2, 0, 5/2], [5/2, 5/2, 0]]] \<and>
   [[[0, 5/2, 5/2], [5/2, 0, 5/2], [5/2, 5/2, 0 :: real]]] ! 0 ! 0 ! 1
     = [[[0, 5/2, 5/2], [5/2, 0, 5/2], [5/2, 5/2, 0]]] ! 0 ! 1 ! 0"
proof -
  have u: "undirected_graph (example_generator True)"
    by (simp add: example_generator_def)
  from heatmap_symmetric [OF u example_forward_undirected, of 0 0 1] u
    example_forward_undirected
  show ?thesis by simp
qed

lemma index_put_total:
  "\<forall>w \<in> set ws. \<exists>i j. wrap_index n (fst (fst w)) = Inr i \<and> wrap_index n (snd (fst w)) = Inr j \<Longrightarrow>
   \<exists>m'. index_put n m ws = Inr m'"
proof (induction ws arbitrary: m)
  case Nil
  then show ?case by simp
next
  case (Cons w ws)
  obtain s d x where w: "w = ((s, d), x)" by (cases w) auto
  from Cons.prems w obtain i j where ij: "wrap_index n s = Inr i" "wrap_index n d = Inr j"
    by auto
  from Cons.prems have "\<forall>w \<in> set ws. \<exists>i j. wrap_index n (fst (fst w)) = Inr i \<and> wrap_index n (snd (fst w)) = Inr j"
    by simp
  from Cons.IH [OF this, of "m[i := (m ! i)[j := x]]"] ij w show ?case by simp
qed

lemma scatter_loop_total:
  "\<forall>g \<in> set gs. \<forall>m. \<exists>m'. assign_edges n m g = Inr m' \<Longrightarrow> \<exists>hm'. scatter_loop n hm k gs = Inr hm'"
proof (induction gs arbitrary: hm k)
  case Nil
  then show ?case by simp
next
  case (Cons g gs)
  from Cons.prems obtain m where m: "assign_edges n (hm ! k) g = Inr m" by fastforce
  from Cons.prems have "\<forall>g \<in> set gs. \<forall>m. \<exists>m'. assign_edges n m g = Inr m'" by simp
  from Cons.IH [OF this, of "hm[k := m]" "Suc k"] m show ?case by simp
qed

lemma wrap_index_in_range: "0 \<le> i \<Longrightarrow> i < int n \<Longrightarrow> wrap_index n i = Inr (nat i)"
  by (simp add: wrap_index_def)

lemma simple_graph_scored:
  assumes "simple_graph N g"
  shows "simple_graph N (g\<lparr>edge_attr := map (edge_score self) (edge_attr g)\<rparr>)"
  using assms by (simp add: simple_graph_def)

lemma simple_graph_assign_total:
  assumes "simple_graph N g"
  shows "\<exists>m'. assign_edges N m (g\<lparr>edge_attr := map (edge_score self) (edge_attr g)\<rparr>) = Inr m'"
proof -
  let ?vals = "concat (map (edge_score self) (edge_attr g))"
  from assms have len: "length ?vals = length (edge_index g)"
    by (simp add: concat_scores_length simple_graph_def)
  then have b: "broadcast_to (length (edge_index g)) ?vals = Inr ?vals"
    by (simp add: broadcast_to_def)
  have "\<forall>w \<in> set (zip (edge_index g) ?vals).
          \<exists>i j. wrap_index N (fst (fst w)) = Inr i \<and> wrap_index N (snd (fst w)) = Inr j"
  proof
    fix w assume "w \<in> set (zip (edge_index g) ?vals)"
    then have "fst w \<in> set (edge_index g)" by (metis set_zip_leftD prod.collapse)
    with assms show "\<exists>i j. wrap_index N (fst (fst w)) = Inr i \<and> wrap_index N (snd (fst w)) = Inr j"
      by (auto simp: simple_graph_def list_all_iff wrap_index_in_range)
  qed
  from index_put_total [OF this, of m] b show ?thesis
    by (auto simp: assign_edges_def)
qed

lemma simple_graph_entry_zero:
  assumes g: "simple_graph N g"
    and m: "assign_edges N (replicate N (replicate N 0))
              (g\<lparr>edge_attr := map (edge_score self) (edge_attr g)\<rparr>) = Inr m"
    and uv: "u < N" "v < N" and ne: "(int u, int v) \<notin> set (edge_index g)"
  shows "m ! u ! v = 0"
proof -
  have "\<exists>vals. m ! u ! v = (if writes_to N (zip (edge_index g) vals) u v = [] then 0
                      else last (writes_to N (zip (edge_index g) vals) u v))"
    using assign_edges_entry [OF m uv] by auto
  then obtain vals where
    e: "m ! u ! v = (if writes_to N (zip (edge_index g) vals) u v = [] then 0
                      else last (writes_to N (zip (edge_index g) vals) u v))"
    by blast
  have "\<forall>e \<in> set (edge_index g). \<not> (wrap_index N (fst e) = Inr u \<and> wrap_index N (snd e) = Inr v)"
  proof
    fix e assume e: "e \<in> set (edge_index g)"
    with g have "wrap_index N (fst e) = Inr (nat (fst e))" "wrap_index N (snd e) = Inr (nat (snd e))"
      "0 \<le> fst e" "0 \<le> snd e"
      by (auto simp: simple_graph_def list_all_iff wrap_index_in_range)
    with e ne show "\<not> (wrap_index N (fst e) = Inr u \<and> wrap_index N (snd e) = Inr v)"
      by (cases e) auto
  qed
  from writes_to_empty [OF this] e show ?thesis by simp
qed

text \<open>
  C5. For a batch of graphs that all have \<open>N\<close> nodes and no self-loop (each with
  one row of features per edge and every edge between two of its nodes),
  \<^verbatim>\<open>EdgeHeatmapGenerator.forward\<close> returns heat maps of shape \<open>[batch, N, N]\<close>
  that hold zero on the diagonal and at every position that is not an edge and, in
  undirected mode, not the reverse of an edge either.
\<close>

theorem heatmap_shape_and_zeros:
  assumes "graphs \<noteq> []" and "\<forall>g \<in> set graphs. simple_graph N g"
  shows "\<exists>M. forward self graphs = Inr M \<and> has_shape (length graphs) N N M \<and>
           (\<forall>i<length graphs. \<forall>u<N. \<forall>v<N.
              (u = v \<or> ((int u, int v) \<notin> set (edge_index (graphs ! i)) \<and>
                         (undirected_graph self \<longrightarrow> (int v, int u) \<notin> set (edge_index (graphs ! i)))))
              \<longrightarrow> M ! i ! u ! v = 0)"
proof -
  let ?gs = "set_edge_attr self graphs"
  from assms have N: "x_rows (hd graphs) = N" by (cases graphs) (auto simp: simple_graph_def)
  have "\<forall>g \<in> set ?gs. \<forall>m. \<exists>m'. assign_edges N m g = Inr m'"
    using assms(2) simple_graph_assign_total by (auto simp: set_edge_attr_def)
  from scatter_loop_total [OF this] obtain hm where
    hm: "scatter_loop N (zeros (length ?gs) N N) 0 ?gs = Inr hm" by blast
  define M where "M = (if undirected_graph self
              then tensor_scale (tensor_add hm (transpose_1_2 hm)) 0.5 else hm)"
  from assms(1) obtain g0 gs0 where gs: "graphs = g0 # gs0" by (cases graphs) auto
  then have sgs: "?gs = g0\<lparr>edge_attr := map (edge_score self) (edge_attr g0)\<rparr> # set_edge_attr self gs0"
    by (simp add: set_edge_attr_def)
  from hm N gs have fw: "forward self graphs = Inr M"
    unfolding forward_def make_heatmaps_def sgs M_def
    by (simp add: Let_def set_edge_attr_length)
  from forward_shape [OF fw] N have shape: "has_shape (length graphs) N N M" by simp
  from scatter_zeros_shape [OF hm] have hshape: "has_shape (length graphs) N N hm"
    by (simp add: set_edge_attr_length)
  have zero: "hm ! i ! u ! v = 0"
    if "i < length graphs" "u < N" "v < N" "(int u, int v) \<notin> set (edge_index (graphs ! i))"
    for i u v
  proof -
    from that(1) assms(2) have sg: "simple_graph N (graphs ! i)" by simp
    from scatter_zeros(2) [OF hm, of i] that(1)
    have "assign_edges N (replicate N (replicate N 0))
            ((graphs ! i)\<lparr>edge_attr := map (edge_score self) (edge_attr (graphs ! i))\<rparr>) = Inr (hm ! i)"
      by (simp add: set_edge_attr_def)
    from simple_graph_entry_zero [OF sg this that(2,3,4)] show ?thesis .
  qed
  have diag: "(int u, int u) \<notin> set (edge_index (graphs ! i))" if "i < length graphs" for i u
  proof -
    from that assms(2) have "simple_graph N (graphs ! i)" by simp
    then show ?thesis by (auto simp: simple_graph_def list_all_iff)
  qed
  have "M ! i ! u ! v = 0"
    if "i < length graphs" "u < N" "v < N"
      "u = v \<or> ((int u, int v) \<notin> set (edge_index (graphs ! i)) \<and>
                (undirected_graph self \<longrightarrow> (int v, int u) \<notin> set (edge_index (graphs ! i))))"
    for i u v
  proof (cases "undirected_graph self")
    case False
    with that zero diag show ?thesis by (auto simp: M_def)
  next
    case True
    from that(4) have "hm ! i ! u ! v = 0 \<and> hm ! i ! v ! u = 0"
    proof
      assume "u = v"
      with zero [OF that(1,2,2)] diag [OF that(1)] show ?thesis by simp
    next
      assume "(int u, int v) \<notin> set (edge_index (graphs ! i)) \<and>
                (undirected_graph self \<longrightarrow> (int v, int u) \<notin> set (edge_index (graphs ! i)))"
      with True zero [OF that(1,2,3)] zero [OF that(1,3,2)] show ?thesis by simp
    qed
    with True symmetrise_nth [OF hshape that(1,2,3)] show ?thesis by (simp add: M_def)
  qed
  with fw shape show ?thesis by blast
qed

lemma example_batch_forward:
  "forward (example_generator True) [example_graph, example_graph2]
   = Inr [[[0, 5/2, 5/2], [5/2, 0, 5/2], [5/2, 5/2, 0]],
          [[0, 0, 5/2], [0, 0, 0], [5/2, 0, 0]]]"
  by (simp add: forward_def make_heatmaps_def set_edge_attr_def example_generator_def
      example_graph_def example_graph2_def edge_score_def sigmoid_0 round_f32_5 zeros_def assign_edges_def
      broadcast_to_def wrap_index_def transpose_1_2_def tensor_add_def tensor_scale_def
      numeral_3_eq_3 numeral_2_eq_2 upt_conv_Cons)

theorem heatmap_shape_and_zeros_witness:
  "[example_graph, example_graph2] \<noteq> [] \<and>
   simple_graph 3 example_graph \<and> simple_graph 3 example_graph2 \<and>
   (int 0, int 1) \<notin> set (edge_index example_graph2) \<and>
   (int 1, int 0) \<notin> set (edge_index example_graph2) \<and>
   (\<exists>M. forward (example_generator True) [example_graph, example_graph2] = Inr M \<and>
        has_shape 2 3 3 M \<and> M ! 1 ! 0 ! 1 = 0 \<and> M ! 0 ! 2 ! 2 = 0)"
proof -
  have sg: "simple_graph 3 example_graph" "simple_graph 3 example_graph2"
    by (simp_all add: simple_graph_def example_graph_def example_graph2_def)
  then have all: "\<forall>g \<in> set [example_graph, example_graph2]. simple_graph 3 g" by simp
  have ne: "(int 0, int 1) \<notin> set (edge_index example_graph2)"
    "(int 1, int 0) \<notin> set (edge_index example_graph2)"
    by (simp_all add: example_graph2_def)
  from heatmap_shape_and_zeros [OF _ all, of "example_generator True"]
  obtain M where fw: "forward (example_generator True) [example_graph, example_graph2] = Inr M"
    and sh: "has_shape (length [example_graph, example_graph2]) 3 3 M"
    and z: "\<forall>i<length [example_graph, example_graph2]. \<forall>u<3. \<forall>v<3.
       (u = v \<or> ((int u, int v) \<notin> set (edge_index ([example_graph, example_graph2] ! i)) \<and>
                 (undirected_graph (example_generator True) \<longrightarrow>
                  (int v, int u) \<notin> set (edge_index ([example_graph, example_graph2] ! i)))))
       \<longrightarrow> M ! i ! u ! v = 0"
    by blast
  from z [rule_format, of 1 0 1] ne have "M ! 1 ! 0 ! 1 = 0" by simp
  moreover from z [rule_format, of 0 2 2] have "M ! 0 ! 2 ! 2 = 0" by simp
  moreover from sh have "has_shape 2 3 3 M" by (simp add: numeral_2_eq_2)
  ultimately show ?thesis using sg ne fw by auto
qed

lemma assign_edges_entry_range:
  assumes m: "assign_edges n (replicate n (replicate n 0))
              (g\<lparr>edge_attr := map (edge_score self) (edge_attr g)\<rparr>) = Inr m"
    and uv: "u < n" "v < n"
  shows "0 \<le> m ! u ! v \<and> m ! u ! v \<le> 10"
proof -
  have "\<exists>vals. broadcast_to (length (edge_index g)) (concat (map (edge_score self) (edge_attr g))) = Inr vals \<and>
           m ! u ! v = (if writes_to n (zip (edge_index g) vals) u v = [] then 0
                      else last (writes_to n (zip (edge_index g) vals) u v))"
    using assign_edges_entry [OF m uv] by auto
  then obtain vals where
    b: "broadcast_to (length (edge_index g)) (concat (map (edge_score self) (edge_attr g))) = Inr vals"
    and e: "m ! u ! v = (if writes_to n (zip (edge_index g) vals) u v = [] then 0
                      else last (writes_to n (zip (edge_index g) vals) u v))"
    by blast
  from broadcast_to_facts [OF b] have len: "length vals = length (edge_index g)"
    and sub: "set vals \<subseteq> set (concat (map (edge_score self) (edge_attr g)))" by auto
  have in_range: "0 \<le> y \<and> y \<le> 10" if "y \<in> set (writes_to n (zip (edge_index g) vals) u v)" for y
    using that writes_to_subset [OF len, of n u v] sub concat_scores_bounds [of y self "edge_attr g"]
    by blast
  show ?thesis
  proof (cases "writes_to n (zip (edge_index g) vals) u v = []")
    case True
    with e show ?thesis by simp
  next
    case False
    with in_range [OF last_in_set [OF False]] e show ?thesis by simp
  qed
qed

text \<open>
  C6, as amended. Every entry of the returned heat maps at the position of an edge
  of the input lies in the closed interval from 0 to 10: the score of an edge is a
  float32 sigmoid value times 10, the last write to a position stays, and the
  symmetrisation averages two numbers of that interval. The position of the edge
  \<open>(s, d)\<close> is where torch's indexing puts it (a negative index counts from the end).
  Both ends are reached, since the float32 sigmoid is exactly 1 at the logit 17
  and exactly 0 at the logit -104.
\<close>

theorem edge_scores_in_closed_interval:
  assumes "forward self graphs = Inr M" and "i < length graphs"
    and "(s, d) \<in> set (edge_index (graphs ! i))"
    and "wrap_index (x_rows (hd graphs)) s = Inr u"
    and "wrap_index (x_rows (hd graphs)) d = Inr v"
  shows "0 \<le> M ! i ! u ! v \<and> M ! i ! u ! v \<le> 10"
proof -
  let ?n = "x_rows (hd graphs)"
  let ?gs = "set_edge_attr self graphs"
  from assms(1) obtain hm where
    sc: "scatter_loop ?n (zeros (length graphs) ?n ?n) 0 ?gs = Inr hm"
    and M: "M = (if undirected_graph self
              then tensor_scale (tensor_add hm (transpose_1_2 hm)) 0.5 else hm)"
    by (rule forward_cases)
  from scatter_zeros_shape [of _ ?gs] sc
  have hm: "has_shape (length graphs) ?n ?n hm"
    by (simp add: set_edge_attr_length)
  from assms(4,5) have u: "u < ?n" and v: "v < ?n" by (auto dest: wrap_index_less)
  from scatter_zeros(2) [of _ ?gs _ i] sc assms(2)
  have a: "assign_edges ?n (replicate ?n (replicate ?n 0))
            ((graphs ! i)\<lparr>edge_attr := map (edge_score self) (edge_attr (graphs ! i))\<rparr>) = Inr (hm ! i)"
    by (simp add: set_edge_attr_def)
  from assign_edges_entry_range [OF a u v]
  have uv: "0 \<le> hm ! i ! u ! v" "hm ! i ! u ! v \<le> 10" by blast+
  from assign_edges_entry_range [OF a v u]
  have vu: "0 \<le> hm ! i ! v ! u" "hm ! i ! v ! u \<le> 10" by blast+
  show ?thesis
  proof (cases "undirected_graph self")
    case False
    with M uv show ?thesis by simp
  next
    case True
    with M symmetrise_nth [OF hm assms(2) u v, of "0.5"]
    have "M ! i ! u ! v = (hm ! i ! u ! v + hm ! i ! v ! u) * 0.5" by simp
    with uv vu show ?thesis by simp
  qed
qed

theorem edge_scores_in_closed_interval_witness:
  "forward (example_generator True) [example_graph, example_graph2]
     = Inr [[[0, 5/2, 5/2], [5/2, 0, 5/2], [5/2, 5/2, 0]],
            [[0, 0, 5/2], [0, 0, 0], [5/2, 0, 0]]] \<and>
   (1::nat) < length [example_graph, example_graph2] \<and>
   (0, 2) \<in> set (edge_index ([example_graph, example_graph2] ! 1)) \<and>
   wrap_index (x_rows (hd [example_graph, example_graph2])) 0 = Inr 0 \<and>
   wrap_index (x_rows (hd [example_graph, example_graph2])) 2 = Inr 2 \<and>
   (0::real) \<le> [[[0, 5/2, 5/2], [5/2, 0, 5/2], [5/2, 5/2, 0]],
        [[0, 0, 5/2], [0, 0, 0], [5/2, 0, 0]]] ! 1 ! 0 ! 2 \<and>
   [[[0, 5/2, 5/2], [5/2, 0, 5/2], [5/2, 5/2, 0]],
    [[0, 0, 5/2], [0, 0, 0], [5/2, 0, 0]]] ! 1 ! 0 ! 2 \<le> (10::real)"
proof -
  have e: "(0, 2) \<in> set (edge_index ([example_graph, example_graph2] ! 1))"
    by (simp add: example_graph2_def)
  have w: "wrap_index (x_rows (hd [example_graph, example_graph2])) 0 = Inr 0"
    "wrap_index (x_rows (hd [example_graph, example_graph2])) 2 = Inr 2"
    by (simp_all add: example_graph_def wrap_index_def)
  have i: "(1::nat) < length [example_graph, example_graph2]" by simp
  from edge_scores_in_closed_interval [OF example_batch_forward i e w] e w i example_batch_forward
  show ?thesis by simp
qed

lemma constant_generator_forward:
  "forward (constant_generator z) [example_graph2]
   = Inr [[[0, 0, round_f32 (sigmoid z * 10)], [0, 0, 0], [0, 0, 0]]]"
  by (simp add: forward_def make_heatmaps_def set_edge_attr_def constant_generator_def
      example_graph2_def edge_score_def zeros_def assign_edges_def broadcast_to_def
      wrap_index_def numeral_3_eq_3)

theorem edge_scores_saturate_counterexample:
  "forward (constant_generator 17) [example_graph2]
     = Inr [[[0, 0, 10], [0, 0, 0], [0, 0, 0]]] \<and>
   forward (constant_generator (- 104)) [example_graph2]
     = Inr [[[0, 0, 0], [0, 0, 0], [0, 0, 0]]] \<and>
   (0, 2) \<in> set (edge_index ([example_graph2] ! 0)) \<and>
   wrap_index (x_rows (hd [example_graph2])) 0 = Inr 0 \<and>
   wrap_index (x_rows (hd [example_graph2])) 2 = Inr 2 \<and>
   \<not> [[[0, 0, 10], [0, 0, 0], [0, 0, 0]]] ! 0 ! 0 ! 2 < (10::real) \<and>
   \<not> (0::real) < [[[0, 0, 0], [0, 0, 0], [0, 0, 0]]] ! 0 ! 0 ! 2"
proof -
  have high: "forward (constant_generator 17) [example_graph2]
      = Inr [[[0, 0, 10], [0, 0, 0], [0, 0, 0]]]"
    by (simp add: constant_generator_forward sigmoid_17 round_f32_10)
  have low: "forward (constant_generator (- 104)) [example_graph2]
      = Inr [[[0, 0, 0], [0, 0, 0], [0, 0, 0]]]"
    by (simp add: constant_generator_forward sigmoid_minus_104 round_f32_0)
  have "(0, 2) \<in> set (edge_index ([example_graph2] ! 0))"
    "wrap_index (x_rows (hd [example_graph2])) 0 = Inr 0"
    "wrap_index (x_rows (hd [example_graph2])) 2 = Inr 2"
    by (simp_all add: example_graph2_def wrap_index_def)
  with high low show ?thesis by simp
qed

subsection \<open>The index helper under its cache\<close>

lemma multistart_batched_index_body_nth:
  assumes "1 < ns" and "k < b * nat ns"
  shows "multistart_batched_index_body (b, ns) ! k = k div nat ns"
proof -
  from assms(1) have pos: "0 < nat ns" by simp
  from assms(2) have k: "k < length [0..<b] * nat ns" by simp
  from assms(2) pos have "k div nat ns < b"
    by (simp add: less_mult_imp_div_less)
  with concat_replicate_nth [OF pos k] assms(1) show ?thesis
    by (simp add: multistart_batched_index_body_def arange_def batchify_def)
qed

text \<open>
  C4. \<^verbatim>\<open>_multistart_batched_index\<close> returns the same result whenever it is called
  with the same \<open>(batch_size, num_starts)\<close>, whatever calls came before and whether
  the result comes from the cache or not, and it maps every rollout to its instance:
  for \<open>num_starts > 1\<close> the result has \<open>batch_size * num_starts\<close> entries, entry
  \<open>k\<close> being \<open>k div num_starts\<close>; for \<open>batch_size = 2\<close> and \<open>num_starts = 3\<close> it is
  \<open>[0, 0, 0, 1, 1, 1]\<close>. The order of the copies is that of \<open>batchify\<close> as the spec
  gives it.
\<close>

theorem multistart_batched_index_memoised:
  "fst (multistart_batched_index (cache_after calls) 2 3) = [0, 0, 0, 1, 1, 1] \<and>
   fst (multistart_batched_index
          (snd (multistart_batched_index (cache_after calls) b ns)) b ns)
     = fst (multistart_batched_index (cache_after calls) b ns) \<and>
   fst (multistart_batched_index (cache_after calls') b ns)
     = fst (multistart_batched_index (cache_after calls) b ns) \<and>
   (1 < ns \<longrightarrow>
      length (fst (multistart_batched_index (cache_after calls) b ns)) = b * nat ns \<and>
      (\<forall>k < b * nat ns. fst (multistart_batched_index (cache_after calls) b ns) ! k = k div nat ns))"
proof -
  have v: "fst (multistart_batched_index (cache_after cs) b' ns') = multistart_batched_index_body (b', ns')"
    for cs b' ns'
    by (simp add: multistart_batched_index_value cache_after_ok)
  have "multistart_batched_index_body (2, 3) = [0, 0, 0, 1, 1, 1]"
    by (simp add: multistart_batched_index_body_def arange_def batchify_def upt_conv_Cons
        numeral_3_eq_3)
  moreover have "fst (multistart_batched_index
          (snd (multistart_batched_index (cache_after calls) b ns)) b ns)
     = multistart_batched_index_body (b, ns)"
    by (simp add: multistart_batched_index_value multistart_batched_index_cache_ok cache_after_ok)
  moreover have "length (multistart_batched_index_body (b, ns)) = b * nat ns" if "1 < ns"
    using that by (simp add: multistart_batched_index_body_def arange_def batchify_length)
  ultimately show ?thesis
    by (simp add: v multistart_batched_index_body_nth)
qed

theorem multistart_batched_index_memoised_witness:
  "fst (multistart_batched_index (cache_after [(2, 3), (5, 1)]) 2 3) = [0, 0, 0, 1, 1, 1] \<and>
   fst (multistart_batched_index
          (snd (multistart_batched_index (cache_after [(2, 3), (5, 1)]) 2 3)) 2 3)
     = fst (multistart_batched_index (cache_after [(2, 3), (5, 1)]) 2 3) \<and>
   fst (multistart_batched_index (cache_after []) 2 3)
     = fst (multistart_batched_index (cache_after [(2, 3), (5, 1)]) 2 3) \<and>
   (1::int) < 3 \<and>
   length (fst (multistart_batched_index (cache_after [(2, 3), (5, 1)]) 2 3)) = 2 * nat 3 \<and>
   fst (multistart_batched_index (cache_after [(2, 3), (5, 1)]) 2 3) ! 4 = 4 div nat 3"
  using multistart_batched_index_memoised [of "[(2, 3), (5, 1)]" 2 3 "[]"]
  by simp

subsection \<open>Log-softmax of a masked row\<close>

lemma fold_fmax_opt:
  "\<exists>r. fold fmax (map (case_option NegInf Num) os) (case_option NegInf Num a) = case_option NegInf Num r \<and>
       ((a \<noteq> None \<or> (\<exists>x \<in> set os. x \<noteq> None)) \<longrightarrow> r \<noteq> None)"
proof (induction os arbitrary: a)
  case Nil
  then show ?case by auto
next
  case (Cons x os)
  define b where "b = (case x of None \<Rightarrow> a
      | Some p \<Rightarrow> (case a of None \<Rightarrow> Some p | Some q \<Rightarrow> Some (max p q)))"
  have b: "fmax (case_option NegInf Num x) (case_option NegInf Num a) = case_option NegInf Num b"
    "(a \<noteq> None \<or> x \<noteq> None) \<longrightarrow> b \<noteq> None"
    by (cases x; cases a; simp add: b_def)+
  from Cons.IH [of b] b show ?case by auto
qed

lemma fsub_opt_Num:
  "fsub (case_option NegInf Num x) (Num c) = case_option NegInf Num (map_option (\<lambda>a. a - c) x)"
  by (cases x) (simp_all add: fsub_def)

lemma fexp_opt:
  "fexp (case_option NegInf Num x) = Num (case x of None \<Rightarrow> 0 | Some a \<Rightarrow> exp a)"
  by (cases x) simp_all

lemma fsum_Num: "fsum (map Num rs) = Num (sum_list rs)"
  by (induction rs) simp_all

lemma sum_list_pos:
  fixes xs :: "real list"
  shows "\<forall>x \<in> set xs. 0 \<le> x \<Longrightarrow> \<exists>x \<in> set xs. 0 < x \<Longrightarrow> 0 < sum_list xs"
proof (induction xs)
  case Nil
  then show ?case by simp
next
  case (Cons x xs)
  show ?case
  proof (cases "0 < x")
    case True
    moreover from Cons.prems(1) have "0 \<le> sum_list xs" by (simp add: sum_list_nonneg)
    ultimately show ?thesis by simp
  next
    case False
    with Cons.prems have "0 \<le> x" "\<exists>x \<in> set xs. 0 < x" "\<forall>x \<in> set xs. 0 \<le> x" by auto
    with Cons.IH show ?thesis by simp
  qed
qed

lemma log_softmax_opt:
  assumes "Some a \<in> set os"
  shows "\<exists>c. log_softmax (map (case_option NegInf Num) os)
              = map (case_option NegInf Num) (map (map_option (\<lambda>a. a - c)) os) \<and>
             sum_list (map (\<lambda>x. case x of None \<Rightarrow> 0 | Some a \<Rightarrow> exp (a - c)) os) = 1"
proof -
  from assms obtain x rest where os: "os = x # rest" by (cases os) auto
  from fold_fmax_opt [of rest x] assms os obtain r where
    "fold fmax (map (case_option NegInf Num) rest) (case_option NegInf Num x) = case_option NegInf Num r"
    "r \<noteq> None" by auto
  then obtain M where
    M: "fold fmax (map (case_option NegInf Num) rest) (case_option NegInf Num x) = Num M"
    by (cases r) auto
  define E where "E = (\<lambda>x. case x of None \<Rightarrow> (0::real) | Some a \<Rightarrow> exp (a - M))"
  define S where "S = sum_list (map E os)"
  have "\<forall>y \<in> set (map E os). 0 \<le> y" by (auto simp: E_def split: option.splits)
  moreover from assms have "\<exists>y \<in> set (map E os). 0 < y"
    by (auto simp: E_def intro!: bexI [of _ "Some a"])
  ultimately have S: "0 < S" unfolding S_def by (rule sum_list_pos)
  have e: "map (\<lambda>y. fexp (fsub y (Num M))) (map (case_option NegInf Num) os) = map Num (map E os)"
    by (auto simp: fsub_opt_Num fexp_opt E_def split: option.splits)
  have ls: "log_softmax (map (case_option NegInf Num) os)
      = map (\<lambda>y. fsub (fsub y (Num M)) (Num (ln S))) (map (case_option NegInf Num) os)"
    using M S e
    by (simp add: log_softmax_def os Let_def fsum_Num S_def del: map_map)
  have "map (\<lambda>y. fsub (fsub y (Num M)) (Num (ln S))) (map (case_option NegInf Num) os)
      = map (case_option NegInf Num) (map (map_option (\<lambda>a. a - (M + ln S))) os)"
    by (auto simp: fsub_def algebra_simps split: option.splits)
  moreover have "sum_list (map (\<lambda>x. case x of None \<Rightarrow> 0 | Some a \<Rightarrow> exp (a - (M + ln S))) os) = 1"
  proof -
    have "(case x of None \<Rightarrow> 0 | Some a \<Rightarrow> exp (a - (M + ln S))) = E x / S" for x
      using S by (cases x) (simp_all add: E_def exp_diff exp_add)
    then have "sum_list (map (\<lambda>x. case x of None \<Rightarrow> 0 | Some a \<Rightarrow> exp (a - (M + ln S))) os)
        = sum_list (map (\<lambda>x. E x / S) os)" by simp
    also have "\<dots> = sum_list (map E os) / S"
      by (induction os) (simp_all add: add_divide_distrib)
    also have "\<dots> = 1" using S by (simp add: S_def)
    finally show ?thesis .
  qed
  ultimately show ?thesis using ls by auto
qed

subsection \<open>\<^verbatim>\<open>log_p\<close> before the mask\<close>

lemma sequence_Inr:
  "sequence rs = Inr ys \<Longrightarrow> length ys = length rs \<and> (\<forall>i < length rs. rs ! i = Inr (ys ! i))"
proof (induction rs arbitrary: ys rule: sequence.induct)
  case 1
  then show ?case by simp
next
  case (2 e rs)
  then show ?case by simp
next
  case (3 x rs)
  from "3.prems" obtain xs where xs: "sequence rs = Inr xs" "ys = x # xs"
    by (auto split: sum.splits)
  from "3.IH" [OF xs(1)] xs(2) show ?case by (auto simp: nth_Cons')
qed

lemma index_rows_nth:
  assumes "index_rows hm indexer acts = Inr pre" and "r < length pre"
  shows "\<exists>b j. b < length hm \<and> j < length (hm ! b) \<and> pre ! r = map Num (hm ! b ! j)"
proof -
  from assms(1) obtain pairs where
    s: "sequence (map (\<lambda>(b, a).
            if b < length hm
            then (case wrap_index (length (hm ! b)) a of
                    Inl e \<Rightarrow> Inl e
                  | Inr j \<Rightarrow> Inr (map Num (hm ! b ! j)))
            else Inl IndexError) pairs) = Inr pre"
    by (auto simp: index_rows_def split: sum.splits)
  from sequence_Inr [OF s] assms(2) have r: "r < length pairs" and
    e: "(case pairs ! r of (b, a) \<Rightarrow>
            if b < length hm
            then (case wrap_index (length (hm ! b)) a of
                    Inl e \<Rightarrow> Inl e
                  | Inr j \<Rightarrow> Inr (map Num (hm ! b ! j)))
            else Inl IndexError) = Inr (pre ! r)"
    by auto
  obtain b a where p: "pairs ! r = (b, a)" by (cases "pairs ! r") auto
  with e obtain j where j: "b < length hm" "wrap_index (length (hm ! b)) a = Inr j"
    "pre ! r = map Num (hm ! b ! j)"
    by (auto split: if_splits sum.splits)
  from wrap_index_less [OF j(2)] j(1,3) show ?thesis by blast
qed

lemma pre_mask_log_p_cases:
  assumes "pre_mask_log_p cache td hm ns = (Inr pre, cache')"
  shows "(action td = None \<and> pre = map (map mean) hm) \<or>
         (\<exists>acts indexer. action td = Some acts \<and> index_rows hm indexer acts = Inr pre)"
  using assms
  by (auto simp: pre_mask_log_p_def Let_def split: option.splits prod.splits)

lemma pre_mask_row:
  assumes "has_shape b n n hm" and "0 < n"
    and "pre_mask_log_p cache td hm ns = (Inr pre, cache')" and "r < length pre"
  shows "\<exists>rs. pre ! r = map Num rs \<and> length rs = n"
  using pre_mask_log_p_cases [OF assms(3)]
proof
  assume a: "action td = None \<and> pre = map (map mean) hm"
  with assms(4) have r: "r < length hm" by simp
  with assms(1) have len: "length (hm ! r) = n" "\<forall>u<n. length (hm ! r ! u) = n"
    by (auto simp: has_shape_iff)
  have "map mean (hm ! r) = map Num (map (\<lambda>row. sum_list row / real (length row)) (hm ! r))"
  proof -
    have "mean row = Num (sum_list row / real (length row))" if "row \<in> set (hm ! r)" for row
    proof -
      from that obtain u where "u < length (hm ! r)" "row = hm ! r ! u"
        by (auto simp: in_set_conv_nth)
      with len assms(2) have "row \<noteq> []" by auto
      then show ?thesis by (simp add: mean_def)
    qed
    then show ?thesis by simp
  qed
  with a r len show ?thesis
    by (intro exI [of _ "map (\<lambda>row. sum_list row / real (length row)) (hm ! r)"]) simp
next
  assume "\<exists>acts indexer. action td = Some acts \<and> index_rows hm indexer acts = Inr pre"
  then obtain acts indexer where "index_rows hm indexer acts = Inr pre" by blast
  from index_rows_nth [OF this assms(4)] obtain b' j where
    bj: "b' < length hm" "j < length (hm ! b')" "pre ! r = map Num (hm ! b' ! j)" by blast
  with assms(1) have "length (hm ! b' ! j) = n" by (auto simp: has_shape_iff)
  with bj show ?thesis by auto
qed

lemma masked_log_p_cases:
  assumes "masked_log_p cache td hm ns = (Inr (lp, msk), cache')"
  obtains pre where "pre_mask_log_p cache td hm ns = (Inr pre, cache')"
    and "msk = map (map Not) (action_mask td)"
    and "map length msk = map length pre"
    and "lp = map2 (map2 (\<lambda>x m. if m then NegInf else x)) pre msk"
  using assms
  by (auto simp: masked_log_p_def masked_fill_def Let_def split: prod.splits sum.splits if_splits)

lemma get_log_p_cases:
  assumes "get_log_p cache td hm ns = (Inr (log_p, msk), cache')"
  obtains lp where "masked_log_p cache td hm ns = (Inr (lp, msk), cache')"
    and "log_p = map log_softmax lp"
  using assms
  by (auto simp: get_log_p_def split: prod.splits sum.splits)

subsection \<open>The first step\<close>

lemma sum_list_nth_sum:
  fixes xs :: "real list"
  shows "sum_list xs = (\<Sum>k<length xs. xs ! k)"
  by (simp add: sum_list_sum_nth atLeast0LessThan)

lemma symmetric_means_agree:
  assumes "has_shape b n n hm" and "i < b" and "j < n"
    and "\<forall>u<n. hm ! i ! u ! j = hm ! i ! j ! u"
  shows "target_mean hm i j = source_mean hm i j"
proof -
  from assms(1,2,3) have len: "length (hm ! i) = n" "length (hm ! i ! j) = n"
    by (auto simp: has_shape_iff)
  have "sum_list (hm ! i ! j) = (\<Sum>k<n. hm ! i ! j ! k)"
    using len by (simp add: sum_list_nth_sum)
  also have "\<dots> = (\<Sum>k<n. hm ! i ! k ! j)"
    using assms(4) by simp
  also have "\<dots> = sum_list (map (\<lambda>row. row ! j) (hm ! i))"
    using len by (simp add: sum_list_nth_sum)
  finally show ?thesis using len by (simp add: target_mean_def source_mean_def)
qed

text \<open>
  C3, as amended. Before the first action \<^verbatim>\<open>_get_log_p\<close> takes, before the mask,
  \<open>log_p[i, j]\<close> to be the mean of row \<open>j\<close> of the heat map of instance \<open>i\<close>, that is
  the mean of \<open>heatmap[i, j, v]\<close> over the target nodes \<open>v\<close>
  (\<^verbatim>\<open>heatmaps_logp.mean(-1)\<close>); no earlier node enters. It is the mean of
  \<open>heatmap[i, u, j]\<close> over the source nodes \<open>u\<close> when column \<open>j\<close> of the heat map
  equals its row \<open>j\<close>, as in a symmetric heat map.
\<close>

theorem first_step_log_p_row_mean:
  assumes "action td = None" and "i < length hm" and "j < length (hm ! i)"
    and "hm ! i ! j \<noteq> []"
  shows "\<exists>log_p. pre_mask_log_p cache td hm num_starts = (Inr log_p, cache) \<and>
           log_p ! i ! j = Num (target_mean hm i j) \<and>
           (has_shape (length hm) (length (hm ! i)) (length (hm ! i)) hm \<and>
            (\<forall>u<length (hm ! i). hm ! i ! u ! j = hm ! i ! j ! u)
            \<longrightarrow> log_p ! i ! j = Num (source_mean hm i j))"
proof -
  from assms have "map (map mean) hm ! i ! j = Num (target_mean hm i j)"
    by (simp add: mean_def target_mean_def)
  moreover have "target_mean hm i j = source_mean hm i j"
    if "has_shape (length hm) (length (hm ! i)) (length (hm ! i)) hm"
      "\<forall>u<length (hm ! i). hm ! i ! u ! j = hm ! i ! j ! u"
    using symmetric_means_agree [OF that(1) assms(2,3) that(2)] .
  ultimately show ?thesis using assms(1) by (auto simp: pre_mask_log_p_def)
qed

lemma example_forward_one_edge:
  "forward (example_generator False) [example_graph2] = Inr [[[0, 0, 5], [0, 0, 0], [0, 0, 0]]]"
  by (simp add: forward_def make_heatmaps_def set_edge_attr_def example_generator_def
      example_graph2_def edge_score_def sigmoid_0 round_f32_5 zeros_def assign_edges_def broadcast_to_def
      wrap_index_def numeral_3_eq_3)

theorem first_step_log_p_row_mean_witness:
  "action example_td = None \<and>
   (0::nat) < length [[[0, 5/2, 5/2], [5/2, 0, 5/2], [5/2, 5/2, 0 :: real]]] \<and>
   (1::nat) < length ([[[0, 5/2, 5/2], [5/2, 0, 5/2], [5/2, 5/2, 0 :: real]]] ! 0) \<and>
   [[[0, 5/2, 5/2], [5/2, 0, 5/2], [5/2, 5/2, 0 :: real]]] ! 0 ! 1 \<noteq> [] \<and>
   has_shape 1 3 3 [[[0, 5/2, 5/2], [5/2, 0, 5/2], [5/2, 5/2, 0 :: real]]] \<and>
   (\<exists>log_p. pre_mask_log_p [] example_td [[[0, 5/2, 5/2], [5/2, 0, 5/2], [5/2, 5/2, 0]]] 1
                = (Inr log_p, []) \<and>
      log_p ! 0 ! 1 = Num (5 / 3) \<and>
      log_p ! 0 ! 1 = Num (source_mean [[[0, 5/2, 5/2], [5/2, 0, 5/2], [5/2, 5/2, 0]]] 0 1))"
proof -
  let ?hm = "[[[0, 5/2, 5/2], [5/2, 0, 5/2], [5/2, 5/2, 0 :: real]]]"
  have a: "action example_td = None" by (simp add: example_td_def)
  have tm: "target_mean ?hm 0 1 = 5 / 3"
    by (simp add: target_mean_def)
  have sh: "has_shape 1 3 3 ?hm" by (simp add: has_shape_def)
  have sym: "\<forall>u<3. ?hm ! 0 ! u ! 1 = ?hm ! 0 ! 1 ! u"
    by (simp add: numeral_3_eq_3 All_less_Suc)
  have len: "(0::nat) < length ?hm" "(1::nat) < length (?hm ! 0)" "?hm ! 0 ! 1 \<noteq> []"
    by simp_all
  have sh': "has_shape (length ?hm) (length (?hm ! 0)) (length (?hm ! 0)) ?hm"
    by (simp add: has_shape_def)
  have sym': "\<forall>u<length (?hm ! 0). ?hm ! 0 ! u ! 1 = ?hm ! 0 ! 1 ! u"
    by (simp add: All_less_Suc)
  from first_step_log_p_row_mean [OF a len, of "[]" 1]
  obtain log_p where lp: "pre_mask_log_p [] example_td ?hm 1 = (Inr log_p, [])"
    "log_p ! 0 ! 1 = Num (target_mean ?hm 0 1)"
    "has_shape (length ?hm) (length (?hm ! 0)) (length (?hm ! 0)) ?hm \<and>
       (\<forall>u<length (?hm ! 0). ?hm ! 0 ! u ! 1 = ?hm ! 0 ! 1 ! u)
     \<longrightarrow> log_p ! 0 ! 1 = Num (source_mean ?hm 0 1)"
    by blast
  from lp(3) sh' sym' have "log_p ! 0 ! 1 = Num (source_mean ?hm 0 1)" by blast
  moreover from lp(2) tm have "log_p ! 0 ! 1 = Num (5 / 3)" by simp
  ultimately show ?thesis using a len sh lp(1) by blast
qed

theorem first_step_log_p_counterexample:
  "forward (example_generator False) [example_graph2] = Inr [[[0, 0, 5], [0, 0, 0], [0, 0, 0]]] \<and>
   action example_td = None \<and>
   pre_mask_log_p [] example_td [[[0, 0, 5], [0, 0, 0], [0, 0, 0]]] 1
     = (Inr [[Num (5 / 3), Num 0, Num 0]], []) \<and>
   source_mean [[[0, 0, 5], [0, 0, 0], [0, 0, 0]]] 0 0 = 0 \<and>
   [[Num (5 / 3), Num 0, Num 0]] ! 0 ! 0 \<noteq> Num (source_mean [[[0, 0, 5], [0, 0, 0], [0, 0, 0]]] 0 0)"
  by (simp add: example_forward_one_edge example_td_def pre_mask_log_p_def mean_def source_mean_def)

subsection \<open>The normalised \<^verbatim>\<open>log_p\<close>\<close>

lemma masked_row_opt:
  assumes "length ms = length rs"
  shows "map2 (\<lambda>x m. if m then NegInf else x) (map Num rs) ms
         = map (case_option NegInf Num) (map2 (\<lambda>a m. if m then None else Some a) rs ms)"
  using assms by (induction rs ms rule: list_induct2') auto

text \<open>
  C2. On heat maps of shape \<open>[b, n, n]\<close>, the \<^verbatim>\<open>log_p\<close> that \<^verbatim>\<open>_get_log_p\<close>
  returns is, in every row with a feasible action, a distribution in the log domain:
  the row has \<open>n\<close> entries, their exponentials sum to 1, every masked position holds
  negative infinity and every feasible position a real number. The mask returned is
  the negation of \<^verbatim>\<open>action_mask\<close>. Arithmetic is exact.
\<close>

theorem get_log_p_distribution:
  assumes "has_shape b n n hm"
    and "get_log_p cache td hm num_starts = (Inr (log_p, msk), cache')"
    and "r < length log_p" and "j < n" and "action_mask td ! r ! j"
  shows "msk = map (map Not) (action_mask td) \<and>
         length (log_p ! r) = n \<and>
         fsum (map fexp (log_p ! r)) = Num 1 \<and>
         (\<forall>k<n. if action_mask td ! r ! k then \<exists>a. log_p ! r ! k = Num a
                 else log_p ! r ! k = NegInf)"
proof -
  from assms(2) obtain lp where
    lp: "masked_log_p cache td hm num_starts = (Inr (lp, msk), cache')"
    and log_p: "log_p = map log_softmax lp"
    by (rule get_log_p_cases)
  from lp obtain pre where
    pre: "pre_mask_log_p cache td hm num_starts = (Inr pre, cache')"
    and msk: "msk = map (map Not) (action_mask td)"
    and shape: "map length msk = map length pre"
    and fill: "lp = map2 (map2 (\<lambda>x m. if m then NegInf else x)) pre msk"
    by (rule masked_log_p_cases)
  from shape have len: "length msk = length pre" by (rule map_eq_imp_length_eq)
  with fill log_p assms(3) have r: "r < length pre" "r < length msk" by simp_all
  from assms(4) have n: "0 < n" by simp
  from pre_mask_row [OF assms(1) n pre r(1)] obtain rs where
    rs: "pre ! r = map Num rs" "length rs = n" by blast
  from shape r have "length (msk ! r) = length (pre ! r)"
    by (metis length_map nth_map)
  with rs have mlen: "length (msk ! r) = n" by simp
  from msk r(2) have mr: "msk ! r = map Not (action_mask td ! r)" by simp
  with mlen have alen: "length (action_mask td ! r) = n" by simp
  define os where "os = map2 (\<lambda>a m. if m then None else Some a) rs (msk ! r)"
  have os_len: "length os = n" using rs mlen by (simp add: os_def)
  have os_nth: "os ! k = (if action_mask td ! r ! k then Some (rs ! k) else None)" if "k < n" for k
    using that rs mlen mr alen by (simp add: os_def)
  from fill r rs masked_row_opt [of "msk ! r" rs] mlen
  have lpr: "lp ! r = map (case_option NegInf Num) os"
    by (simp add: os_def)
  from os_nth [OF assms(4)] assms(4,5) os_len have "Some (rs ! j) \<in> set os"
    by (metis nth_mem)
  from log_softmax_opt [OF this] obtain c where
    c: "log_softmax (map (case_option NegInf Num) os)
          = map (case_option NegInf Num) (map (map_option (\<lambda>a. a - c)) os)"
    and one: "sum_list (map (\<lambda>x. case x of None \<Rightarrow> 0 | Some a \<Rightarrow> exp (a - c)) os) = 1"
    by blast
  from log_p r len lpr c have row:
    "log_p ! r = map (case_option NegInf Num) (map (map_option (\<lambda>a. a - c)) os)"
    using fill by simp
  have "map fexp (log_p ! r) = map Num (map (\<lambda>x. case x of None \<Rightarrow> 0 | Some a \<Rightarrow> exp (a - c)) os)"
    unfolding row by (auto split: option.splits)
  with one have "fsum (map fexp (log_p ! r)) = Num 1"
    by (simp only: fsum_Num)
  moreover from row os_len have "length (log_p ! r) = n" by simp
  moreover have "if action_mask td ! r ! k then \<exists>a. log_p ! r ! k = Num a
                 else log_p ! r ! k = NegInf" if "k < n" for k
    using that os_nth [OF that] os_len by (simp add: row)
  ultimately show ?thesis using msk by blast
qed

subsection \<open>The degenerate mask\<close>

lemma fold_fmax_NegInf: "fold fmax (replicate k NegInf) NegInf = NegInf"
  by (induction k) simp_all

lemma funpow_fmax_NegInf: "(fmax NegInf ^^ k) NegInf = NegInf"
  by (induction k) simp_all

lemma log_softmax_all_NegInf:
  assumes "0 < k"
  shows "log_softmax (replicate k NegInf) = replicate k NaN"
proof -
  from assms obtain k' where k: "k = Suc k'" by (cases k) auto
  have sub: "fsub NegInf NegInf = NaN" by (simp add: fsub_def)
  have nan: "fsub NaN l = NaN" for l by (simp add: fsub_def)
  have "log_softmax (NegInf # replicate k' NegInf)
      = map (\<lambda>y. fsub (fsub y NegInf)
              (flog (fsum (map (\<lambda>y. fexp (fsub y NegInf)) (NegInf # replicate k' NegInf)))))
          (NegInf # replicate k' NegInf)"
    by (simp add: log_softmax_def fold_fmax_NegInf Let_def del: fold_replicate)
  also have "\<dots> = replicate (Suc k') NaN"
    by (simp add: sub nan)
  finally show ?thesis by (simp add: k)
qed

text \<open>
  C8. In a row whose \<^verbatim>\<open>action_mask\<close> forbids every action, \<^verbatim>\<open>_get_log_p\<close> has
  set every position to negative infinity before it normalises, the log-softmax
  turns the row into NaN, and the row is returned as it is: normalising raises no
  error, so whenever the lines before it succeed, \<^verbatim>\<open>_get_log_p\<close> returns.
\<close>

theorem get_log_p_degenerate_mask:
  assumes "masked_log_p cache td hm num_starts = (Inr (lp, msk), cache')"
    and "r < length lp" and "action_mask td ! r \<noteq> []"
    and "\<forall>k<length (action_mask td ! r). \<not> action_mask td ! r ! k"
  shows "lp ! r = replicate (length (action_mask td ! r)) NegInf \<and>
         (\<exists>log_p. get_log_p cache td hm num_starts = (Inr (log_p, msk), cache') \<and>
            log_p ! r = replicate (length (action_mask td ! r)) NaN)"
proof -
  let ?n = "length (action_mask td ! r)"
  from assms(1) obtain pre where
    msk: "msk = map (map Not) (action_mask td)"
    and shape: "map length msk = map length pre"
    and fill: "lp = map2 (map2 (\<lambda>x m. if m then NegInf else x)) pre msk"
    by (rule masked_log_p_cases)
  from shape have len: "length msk = length pre" by (rule map_eq_imp_length_eq)
  with fill assms(2) have r: "r < length pre" "r < length msk" by simp_all
  from shape r have plen: "length (msk ! r) = length (pre ! r)"
    by (metis length_map nth_map)
  from msk r(2) have "msk ! r = map Not (action_mask td ! r)" by simp
  with assms(4) have mr: "msk ! r = replicate ?n True"
    by (auto simp: list_eq_iff_nth_eq)
  with plen have "map2 (\<lambda>x m. if m then NegInf else x) (pre ! r) (msk ! r) = replicate ?n NegInf"
    by (auto simp: list_eq_iff_nth_eq)
  with fill r have row: "lp ! r = replicate ?n NegInf" by simp
  from assms(3) have "0 < ?n" by simp
  from log_softmax_all_NegInf [OF this] row assms(2)
  have "map log_softmax lp ! r = replicate ?n NaN" by simp
  moreover from assms(1)
  have "get_log_p cache td hm num_starts = (Inr (map log_softmax lp, msk), cache')"
    by (simp add: get_log_p_def)
  ultimately show ?thesis using row by blast
qed

lemma example_get_log_p:
  "get_log_p [] example_td [[[0, 5/2, 5/2], [5/2, 0, 5/2], [5/2, 5/2, 0]]] 1
   = (Inr ([[Num (- ln 2), NegInf, Num (- ln 2)]], [[False, True, False]]), [])"
  by (simp add: get_log_p_def masked_log_p_def pre_mask_log_p_def masked_fill_def example_td_def
      mean_def log_softmax_def fsub_def Let_def)

theorem get_log_p_distribution_witness:
  "has_shape 1 3 3 [[[0, 5/2, 5/2], [5/2, 0, 5/2], [5/2, 5/2, 0 :: real]]] \<and>
   get_log_p [] example_td [[[0, 5/2, 5/2], [5/2, 0, 5/2], [5/2, 5/2, 0]]] 1
     = (Inr ([[Num (- ln 2), NegInf, Num (- ln 2)]], [[False, True, False]]), []) \<and>
   (0::nat) < length [[Num (- ln 2), NegInf, Num (- ln 2)]] \<and> (0::nat) < 3 \<and>
   action_mask example_td ! 0 ! 0 \<and>
   [[False, True, False]] = map (map Not) (action_mask example_td) \<and>
   length ([[Num (- ln 2), NegInf, Num (- ln 2)]] ! 0) = 3 \<and>
   fsum (map fexp ([[Num (- ln 2), NegInf, Num (- ln 2)]] ! 0)) = Num 1"
proof -
  have sh: "has_shape 1 3 3 [[[0, 5/2, 5/2], [5/2, 0, 5/2], [5/2, 5/2, 0 :: real]]]"
    by (simp add: has_shape_def)
  have r: "(0::nat) < length [[Num (- ln 2), NegInf, Num (- ln 2)]]" by simp
  have j: "(0::nat) < 3" by simp
  have a: "action_mask example_td ! 0 ! 0" by (simp add: example_td_def)
  from get_log_p_distribution [OF sh example_get_log_p r j a] sh example_get_log_p r a
  show ?thesis by simp
qed

lemma example_masked_log_p_blocked:
  "masked_log_p [] example_td_blocked [[[0, 5/2, 5/2], [5/2, 0, 5/2], [5/2, 5/2, 0]]] 1
   = (Inr ([[NegInf, NegInf, NegInf]], [[True, True, True]]), [((1, 1), [0])])"
  by (simp add: masked_log_p_def pre_mask_log_p_def masked_fill_def example_td_blocked_def
      multistart_batched_index_def lru_cache_def multistart_batched_index_body_def arange_def
      index_rows_def broadcast_indices_def wrap_index_def Let_def)

theorem get_log_p_degenerate_mask_witness:
  "masked_log_p [] example_td_blocked [[[0, 5/2, 5/2], [5/2, 0, 5/2], [5/2, 5/2, 0]]] 1
     = (Inr ([[NegInf, NegInf, NegInf]], [[True, True, True]]), [((1, 1), [0])]) \<and>
   (0::nat) < length [[NegInf, NegInf, NegInf]] \<and>
   action_mask example_td_blocked ! 0 = [False, False, False] \<and>
   (\<exists>log_p. get_log_p [] example_td_blocked [[[0, 5/2, 5/2], [5/2, 0, 5/2], [5/2, 5/2, 0]]] 1
              = (Inr (log_p, [[True, True, True]]), [((1, 1), [0])]) \<and>
            log_p ! 0 = [NaN, NaN, NaN])"
proof -
  have r: "(0::nat) < length [[NegInf, NegInf, NegInf]]" by simp
  have am: "action_mask example_td_blocked ! 0 = [False, False, False]"
    by (simp add: example_td_blocked_def)
  then have ne: "action_mask example_td_blocked ! 0 \<noteq> []"
    and all: "\<forall>k<length (action_mask example_td_blocked ! 0). \<not> action_mask example_td_blocked ! 0 ! k"
    by (simp_all add: All_less_Suc)
  from get_log_p_degenerate_mask [OF example_masked_log_p_blocked r ne all] am
    example_masked_log_p_blocked
  show ?thesis by (simp add: numeral_3_eq_3)
qed

subsection \<open>The decoding loop\<close>

lemma decode_loop_done:
  "all_done td \<Longrightarrow> decode_loop hm ns env (cache, strat, td) = Some (cache, strat, Inr td)"
  by (subst decode_loop.simps) simp

lemma decode_loop_step:
  assumes "\<not> all_done td"
  shows "decode_loop hm ns env (cache, strat, td) =
     (case get_log_p cache td hm ns of
        (Inl e, cache') \<Rightarrow> Some (cache', strat, Inl e)
      | (Inr (log_p, msk), cache') \<Rightarrow>
          (case strategy_step strat (state strat) log_p msk td of
             (s', td') \<Rightarrow>
               decode_loop hm ns env (cache', strat\<lparr>state := s'\<rparr>, env_step env td')))"
  using assms by (subst decode_loop.simps) simp




lemmas log_p_defs = get_log_p_def masked_log_p_def pre_mask_log_p_def masked_fill_def
  mean_def log_softmax_def fsub_def multistart_batched_index_def lru_cache_def
  multistart_batched_index_body_def arange_def index_rows_def broadcast_indices_def
  wrap_index_def Let_def

lemma example_decode_loop:
  "decode_loop [[[0, 5/2, 5/2], [5/2, 0, 5/2], [5/2, 5/2, 0]]] 1 example_env
     ([], example_strategy, example_start)
   = Some ([((1, 1), [0])], example_strategy\<lparr>state := [[0], [1]]\<rparr>,
           Inr \<lparr>td_done = [True], action_mask = [[False, False, True]], action = Some [1],
                reward = None, extra = 2\<rparr>)"
  by (simp add: decode_loop_step decode_loop_done all_done_def example_start_def
      example_strategy_def example_env_def first_feasible_def log_p_defs)

lemma example_decoder_forward:
  "decoder_forward example_registries example_decoder [] example_start [example_graph]
     EnvNone ''first'' True ()
   = Some (example_decoder\<lparr>decode_strategy := Some (example_strategy\<lparr>state := [[0], [1]]\<rparr>)\<rparr>,
           [((1, 1), [0])],
           Inr ([], [[0], [1]],
                \<lparr>td_done = [True], action_mask = [[False, False, True]], action = Some [1],
                 reward = Some [- 1], extra = 2\<rparr>))"
proof -
  have "(example_generator False)\<lparr>undirected_graph := True\<rparr> = example_generator True"
    by (simp add: example_generator_def)
  then have hm: "heatmap_generator example_decoder [example_graph]
      = Inr [[[0, 5/2, 5/2], [5/2, 0, 5/2], [5/2, 5/2, 0]]]"
    by (simp add: example_decoder_def init_def example_forward_undirected)
  have env: "resolve_env example_registries example_decoder EnvNone = Inr example_env"
    by (simp add: resolve_env_def example_registries_def example_decoder_def init_def
        example_env_def)
  have strat: "get_decoding_strategy example_registries ''first'' () = Inr example_strategy"
    by (simp add: example_registries_def)
  have pre: "pre_decoder_hook example_strategy (state example_strategy) example_start example_env
      = ([], example_start, example_env, 1)"
    by (simp add: example_strategy_def)
  have st: "example_strategy\<lparr>state := []\<rparr> = example_strategy"
    by (simp add: example_strategy_def)
  show ?thesis
    unfolding decoder_forward_def hm env strat
    by (simp add: pre st example_decode_loop)
       (simp add: example_strategy_def example_env_def)
qed

subsection \<open>Termination of \<^verbatim>\<open>forward\<close>\<close>






subsection \<open>What \<^verbatim>\<open>forward\<close> leaves on the decoder\<close>

text \<open>
  C7, as amended. After a call of \<^verbatim>\<open>forward\<close> the decoder object differs from
  the object before the call at most in the attribute \<^verbatim>\<open>decode_strategy\<close>, which
  \<^verbatim>\<open>forward\<close> assigns: \<^verbatim>\<open>env_name\<close> and \<^verbatim>\<open>heatmap_generator\<close> are as they were.
  Besides the cache of \<^verbatim>\<open>_multistart_batched_index\<close>, the strategy object of the
  call, with what it has recorded, is the state that survives, and after a normal
  return it is there.
\<close>

theorem decoder_forward_frame:
  assumes "decoder_forward reg self cache td graph env_arg decode_type calc_reward kwargs
           = Some (self', cache', r)"
  shows "self'\<lparr>decode_strategy := decode_strategy self\<rparr> = self \<and>
         env_name self' = env_name self \<and> heatmap_generator self' = heatmap_generator self \<and>
         (\<forall>res. r = Inr res \<longrightarrow> decode_strategy self' \<noteq> None)"
proof -
  have "self'\<lparr>decode_strategy := decode_strategy self\<rparr> = self \<and>
      (\<forall>res. r = Inr res \<longrightarrow> decode_strategy self' \<noteq> None)"
    using assms
    by (auto simp: decoder_forward_def Let_def
        split: sum.splits prod.splits option.splits if_splits)
  then have eq: "self'\<lparr>decode_strategy := decode_strategy self\<rparr> = self"
    and ret: "\<forall>res. r = Inr res \<longrightarrow> decode_strategy self' \<noteq> None" by blast+
  from eq have "env_name (self'\<lparr>decode_strategy := decode_strategy self\<rparr>) = env_name self"
    "heatmap_generator (self'\<lparr>decode_strategy := decode_strategy self\<rparr>) = heatmap_generator self"
    by simp_all
  then have "env_name self' = env_name self" "heatmap_generator self' = heatmap_generator self"
    by simp_all
  with eq ret show ?thesis by blast
qed

theorem decoder_forward_frame_witness:
  "decoder_forward example_registries example_decoder [] example_start [example_graph]
     EnvNone ''first'' True ()
   = Some (example_decoder\<lparr>decode_strategy := Some (example_strategy\<lparr>state := [[0], [1]]\<rparr>)\<rparr>,
           [((1, 1), [0])],
           Inr ([], [[0], [1]],
                \<lparr>td_done = [True], action_mask = [[False, False, True]], action = Some [1],
                 reward = Some [- 1], extra = 2\<rparr>)) \<and>
   env_name (example_decoder\<lparr>decode_strategy := Some (example_strategy\<lparr>state := [[0], [1]]\<rparr>)\<rparr>)
     = env_name example_decoder \<and>
   heatmap_generator (example_decoder\<lparr>decode_strategy := Some (example_strategy\<lparr>state := [[0], [1]]\<rparr>)\<rparr>)
     = heatmap_generator example_decoder \<and>
   decode_strategy (example_decoder\<lparr>decode_strategy := Some (example_strategy\<lparr>state := [[0], [1]]\<rparr>)\<rparr>)
     \<noteq> None"
  using decoder_forward_frame [OF example_decoder_forward] example_decoder_forward
  by simp

theorem decoder_forward_state_counterexample:
  "decoder_forward example_registries example_decoder [] example_start [example_graph]
     EnvNone ''first'' True ()
   = Some (example_decoder\<lparr>decode_strategy := Some (example_strategy\<lparr>state := [[0], [1]]\<rparr>)\<rparr>,
           [((1, 1), [0])],
           Inr ([], [[0], [1]],
                \<lparr>td_done = [True], action_mask = [[False, False, True]], action = Some [1],
                 reward = Some [- 1], extra = 2\<rparr>)) \<and>
   decode_strategy example_decoder = None \<and>
   map_option state
     (decode_strategy
        (example_decoder\<lparr>decode_strategy := Some (example_strategy\<lparr>state := [[0], [1]]\<rparr>)\<rparr>))
     = Some [[0], [1]] \<and>
   example_decoder\<lparr>decode_strategy := Some (example_strategy\<lparr>state := [[0], [1]]\<rparr>)\<rparr>
     \<noteq> example_decoder"
proof -
  have none: "decode_strategy example_decoder = None"
    by (simp add: example_decoder_def init_def)
  have "decode_strategy
          (example_decoder\<lparr>decode_strategy := Some (example_strategy\<lparr>state := [[0], [1]]\<rparr>)\<rparr>)
        \<noteq> decode_strategy example_decoder"
    by (simp add: none)
  then have "example_decoder\<lparr>decode_strategy := Some (example_strategy\<lparr>state := [[0], [1]]\<rparr>)\<rparr>
     \<noteq> example_decoder" by metis
  with none example_decoder_forward show ?thesis by simp
qed

end
